theory Spec2Isabelle
  imports Complex_Main "HOL-Library.Word" "HOL-Library.Log_Nat" "HOL-Library.Stream"
begin

unbundle bit_operations_syntax

section \<open>MPFR numbers\<close>

text \<open>
  The program keeps its statistics in MPFR variables. MPFR itself is a library the
  program links against; its operations are modelled here after the MPFR manual. A value
  is NaN, a signed infinity, a signed zero, or a non-zero rational (every regular MPFR
  number is a dyadic rational). The boolean is the sign bit: \<open>True\<close> is negative.
  Every operation computes the exact result and rounds it once, to nearest with ties to
  even (\<open>MPFR_RNDN\<close>), to the precision of its destination variable, which the model
  passes as the first argument.
\<close>

datatype mpfr = MNaN | MInf bool | MZero bool | MFin rat

text \<open>\<open>expo x\<close> is the integer \<open>e\<close> with \<open>2^e \<le> |x| < 2^(e+1)\<close>, for \<open>x \<noteq> 0\<close>.\<close>

definition expo :: "rat \<Rightarrow> int" where
  "expo x = (if 1 \<le> \<bar>x\<bar> then bitlen \<lfloor>\<bar>x\<bar>\<rfloor> - 1 else - bitlen (\<lceil>1 / \<bar>x\<bar>\<rceil> - 1))"

definition round_even :: "rat \<Rightarrow> int" where
  "round_even q = (let f = \<lfloor>q\<rfloor>; d = q - of_int f in
     if d < 1/2 then f else if 1/2 < d then f + 1 else if even f then f else f + 1)"

text \<open>Rounding to nearest-even at \<open>p\<close> significant bits, exponent range unbounded.\<close>

definition ulp :: "nat \<Rightarrow> rat \<Rightarrow> rat" where
  "ulp p x = 2 powi (expo x - int p + 1)"

definition rnd :: "nat \<Rightarrow> rat \<Rightarrow> rat" where
  "rnd p x = of_int (round_even (x / ulp p x)) * ulp p x"

text \<open>\<open>x\<close> has at most \<open>p\<close> significant bits.\<close>

definition mpfr_fits :: "nat \<Rightarrow> rat \<Rightarrow> bool" where
  "mpfr_fits p x = (of_int \<lfloor>x / ulp p x\<rfloor> = x / ulp p x)"

text \<open>
  MPFR's default exponent range (the program never changes it). MPFR writes a regular
  number as \<open>0.1... * 2^E\<close>, so its exponent \<open>E\<close> is \<open>expo x + 1\<close>.
\<close>

definition mpfr_emax :: int where "mpfr_emax = 1073741823"
definition mpfr_emin :: int where "mpfr_emin = - 1073741823"

text \<open>
  The one rounding of an exact result \<open>x\<close>: overflow gives an infinity; underflow gives
  zero when \<open>|x|\<close> is at most half the smallest positive number and that smallest number
  otherwise (MPFR has no subnormals).
\<close>

definition mpfr_round :: "nat \<Rightarrow> rat \<Rightarrow> mpfr" where
  "mpfr_round p x =
     (if x = 0 then MZero False
      else let r = rnd p x in
        if mpfr_emax < expo r + 1 then MInf (x < 0)
        else if expo r + 1 < mpfr_emin then
          (if expo x < mpfr_emin - 2 \<or> \<bar>x\<bar> = 2 powi (mpfr_emin - 2) then MZero (x < 0)
           else MFin (sgn x * 2 powi (mpfr_emin - 1)))
        else MFin r)"

text \<open>A regular number of precision \<open>p\<close>: non-zero, \<open>p\<close> bits, exponent in range.\<close>

definition mpfr_regular :: "nat \<Rightarrow> rat \<Rightarrow> bool" where
  "mpfr_regular p x = (x \<noteq> 0 \<and> mpfr_fits p x \<and> mpfr_emin \<le> expo x + 1 \<and> expo x + 1 \<le> mpfr_emax)"

text \<open>What a variable of precision \<open>p\<close> can hold.\<close>

definition mpfr_wf :: "nat \<Rightarrow> mpfr \<Rightarrow> bool" where
  "mpfr_wf p a = (case a of MFin x \<Rightarrow> mpfr_regular p x | _ \<Rightarrow> True)"

definition mpfr_nan_p :: "mpfr \<Rightarrow> bool" where
  "mpfr_nan_p a = (case a of MNaN \<Rightarrow> True | _ \<Rightarrow> False)"

definition mpfr_inf_p :: "mpfr \<Rightarrow> bool" where
  "mpfr_inf_p a = (case a of MInf s \<Rightarrow> True | _ \<Rightarrow> False)"

definition mpfr_zero_p :: "mpfr \<Rightarrow> bool" where
  "mpfr_zero_p a = (case a of MZero s \<Rightarrow> True | _ \<Rightarrow> False)"

text \<open>\<open>mpfr_number_p\<close>: the value is an ordinary number or a zero (neither NaN nor infinite).\<close>

definition mpfr_number_p :: "mpfr \<Rightarrow> bool" where
  "mpfr_number_p a = (case a of MNaN \<Rightarrow> False | MInf s \<Rightarrow> False | _ \<Rightarrow> True)"

definition mpfr_signbit :: "mpfr \<Rightarrow> bool" where
  "mpfr_signbit a = (case a of MNaN \<Rightarrow> False | MInf s \<Rightarrow> s | MZero s \<Rightarrow> s | MFin x \<Rightarrow> x < 0)"

text \<open>The exact value of a number (0 for the values that have none).\<close>

definition mpfr_val :: "mpfr \<Rightarrow> rat" where
  "mpfr_val a = (case a of MFin x \<Rightarrow> x | _ \<Rightarrow> 0)"

text \<open>\<open>mpfr_lessequal_p a b\<close>: \<open>a \<le> b\<close>, false when either is NaN; the two zeros are equal.\<close>

definition mpfr_lessequal_p :: "mpfr \<Rightarrow> mpfr \<Rightarrow> bool" where
  "mpfr_lessequal_p a b =
     (if mpfr_nan_p a \<or> mpfr_nan_p b then False
      else if mpfr_inf_p a then (mpfr_signbit a \<or> (mpfr_inf_p b \<and> \<not> mpfr_signbit b))
      else if mpfr_inf_p b then \<not> mpfr_signbit b
      else mpfr_val a \<le> mpfr_val b)"

definition mpfr_negate :: "mpfr \<Rightarrow> mpfr" where
  "mpfr_negate a = (case a of MNaN \<Rightarrow> MNaN | MInf s \<Rightarrow> MInf (\<not> s) | MZero s \<Rightarrow> MZero (\<not> s)
                     | MFin x \<Rightarrow> MFin (- x))"

definition mpfr_set_ui :: "nat \<Rightarrow> 64 word \<Rightarrow> mpfr" where
  "mpfr_set_ui p u = mpfr_round p (of_nat (unat u))"

definition mpfr_abs :: "nat \<Rightarrow> mpfr \<Rightarrow> mpfr" where
  "mpfr_abs p a = (case a of MNaN \<Rightarrow> MNaN | MInf s \<Rightarrow> MInf False | MZero s \<Rightarrow> MZero False
                    | MFin x \<Rightarrow> mpfr_round p \<bar>x\<bar>)"

text \<open>
  Addition. Infinities of opposite sign give NaN; a sum of two zeros is \<open>-0\<close> only when both
  are; an exact sum that cancels to zero is \<open>+0\<close> in round-to-nearest.
\<close>

definition mpfr_add :: "nat \<Rightarrow> mpfr \<Rightarrow> mpfr \<Rightarrow> mpfr" where
  "mpfr_add p a b =
     (if mpfr_nan_p a \<or> mpfr_nan_p b then MNaN
      else if mpfr_inf_p a then
        (if mpfr_inf_p b \<and> mpfr_signbit b \<noteq> mpfr_signbit a then MNaN else a)
      else if mpfr_inf_p b then b
      else if mpfr_zero_p a \<and> mpfr_zero_p b then MZero (mpfr_signbit a \<and> mpfr_signbit b)
      else mpfr_round p (mpfr_val a + mpfr_val b))"

definition mpfr_sub :: "nat \<Rightarrow> mpfr \<Rightarrow> mpfr \<Rightarrow> mpfr" where
  "mpfr_sub p a b = mpfr_add p a (mpfr_negate b)"

text \<open>
  Division. \<open>0/0\<close> and \<open>Inf/Inf\<close> are NaN; a non-zero number divided by zero is an
  infinity; the sign is the exclusive or of the operands' signs.
\<close>

definition mpfr_div :: "nat \<Rightarrow> mpfr \<Rightarrow> mpfr \<Rightarrow> mpfr" where
  "mpfr_div p a b =
     (let s = (mpfr_signbit a \<noteq> mpfr_signbit b) in
      if mpfr_nan_p a \<or> mpfr_nan_p b then MNaN
      else if mpfr_inf_p a then (if mpfr_inf_p b then MNaN else MInf s)
      else if mpfr_inf_p b then MZero s
      else if mpfr_zero_p b then (if mpfr_zero_p a then MNaN else MInf s)
      else if mpfr_zero_p a then MZero s
      else mpfr_round p (mpfr_val a / mpfr_val b))"

text \<open>Division by an \<open>unsigned long\<close>; the divisor 0 behaves as \<open>+0\<close>.\<close>

definition mpfr_div_ui :: "nat \<Rightarrow> mpfr \<Rightarrow> 64 word \<Rightarrow> mpfr" where
  "mpfr_div_ui p a u =
     (case a of
        MNaN \<Rightarrow> MNaN
      | MInf s \<Rightarrow> MInf s
      | MZero s \<Rightarrow> (if u = 0 then MNaN else MZero s)
      | MFin x \<Rightarrow> (if u = 0 then MInf (x < 0) else mpfr_round p (x / of_nat (unat u))))"

text \<open>
  Fused multiply-add \<open>x * y + z\<close>, rounded once. \<open>Inf * 0\<close> is NaN, and so is
  an infinite product added to the opposite infinity.
\<close>

definition mpfr_fma :: "nat \<Rightarrow> mpfr \<Rightarrow> mpfr \<Rightarrow> mpfr \<Rightarrow> mpfr" where
  "mpfr_fma p x y z =
     (let s = (mpfr_signbit x \<noteq> mpfr_signbit y) in
      if mpfr_nan_p x \<or> mpfr_nan_p y \<or> mpfr_nan_p z then MNaN
      else if mpfr_inf_p x \<or> mpfr_inf_p y then
        (if mpfr_zero_p x \<or> mpfr_zero_p y then MNaN
         else if mpfr_inf_p z \<and> mpfr_signbit z \<noteq> s then MNaN
         else MInf s)
      else if mpfr_inf_p z then z
      else if mpfr_zero_p x \<or> mpfr_zero_p y then
        (if mpfr_zero_p z then MZero (s \<and> mpfr_signbit z)
         else mpfr_round p (mpfr_val z))
      else mpfr_round p (mpfr_val x * mpfr_val y + mpfr_val z))"

text \<open>The integer square root, by the digit recurrence on base-4 digits.\<close>

function isqrt :: "nat \<Rightarrow> nat" where
  "isqrt n = (if n < 4 then (if n = 0 then 0 else 1)
              else let r = 2 * isqrt (n div 4) in if (r + 1) * (r + 1) \<le> n then r + 1 else r)"
  by pat_completeness auto
termination
  by (relation "measure id") auto

declare isqrt.simps [simp del]

text \<open>
  Square root, correctly rounded: the root is scaled to an integer of \<open>p + 3\<close> bits, where no
  rounding boundary lies strictly between two consecutive integers, so an inexact root
  rounds as the midpoint of the two integers around it does.
\<close>

definition mpfr_sqrt :: "nat \<Rightarrow> mpfr \<Rightarrow> mpfr" where
  "mpfr_sqrt p a =
     (case a of
        MNaN \<Rightarrow> MNaN
      | MInf s \<Rightarrow> (if s then MNaN else MInf False)
      | MZero s \<Rightarrow> MZero s
      | MFin x \<Rightarrow>
          (if x < 0 then MNaN
           else let k = int p + 2 - expo x div 2;
                    N = x * 4 powi k;
                    s = isqrt (nat \<lfloor>N\<rfloor>);
                    y = (if of_nat (s * s) = N then of_nat s else of_nat s + 1/2)
                in mpfr_round p (y / 2 powi k)))"

section \<open>The running statistics: \<open>stats_t\<close>, \<open>stats_init\<close>, \<open>stats_add\<close>, \<open>stats_print\<close>\<close>

definition MPFR_PREC :: nat where "MPFR_PREC = 512"

text \<open>
  \<open>MPFR_DECL_INIT(x, prec)\<close> declares an automatic variable of the given precision; the
  MPFR header initialises it to NaN.
\<close>

definition MPFR_DECL_INIT :: mpfr where "MPFR_DECL_INIT = MNaN"

record stats_t =
  distribution :: string
  generator :: string
  n :: "64 word"
  mean :: mpfr
  m2 :: mpfr

definition stats_init :: "string \<Rightarrow> string \<Rightarrow> stats_t" where
  "stats_init dist_name gen_name =
     \<lparr> distribution = dist_name, generator = gen_name, n = 0,
       mean = mpfr_set_ui MPFR_PREC 0, m2 = mpfr_set_ui MPFR_PREC 0 \<rparr>"

text \<open>
  \<open>stats_add\<close>, statement by statement; \<open>reldiff\<close> and \<open>t\<close> are assigned twice, as in the
  source.
\<close>

definition stats_add :: "stats_t \<Rightarrow> mpfr \<Rightarrow> mpfr \<Rightarrow> stats_t" where
  "stats_add stats y ref =
     (let stats = stats\<lparr>n := n stats + 1\<rparr>;
          diff = mpfr_sub MPFR_PREC y ref;
          reldiff = mpfr_abs MPFR_PREC ref;
          reldiff = mpfr_div MPFR_PREC diff reldiff;
          delta = mpfr_sub MPFR_PREC reldiff (mean stats);
          t = mpfr_div_ui MPFR_PREC delta (n stats);
          stats = stats\<lparr>mean := mpfr_add MPFR_PREC (mean stats) t\<rparr>;
          t = mpfr_sub MPFR_PREC reldiff (mean stats);
          stats = stats\<lparr>m2 := mpfr_fma MPFR_PREC delta t (m2 stats)\<rparr>
      in stats)"

text \<open>
  \<open>stats_print\<close> writes six lines to the stream. A line is kept as the datum it prints (the
  text formatting of \<open>mpfr_fprintf\<close> is not modelled); the stream is the list of lines
  written so far. The cell is passed as \<open>const\<close> and is not returned.
\<close>

datatype line =
    Header string string
  | Samples "64 word"
  | MeanLine mpfr
  | VarianceLine mpfr
  | StddevLine mpfr
  | Blank

definition stats_print :: "stats_t \<Rightarrow> line list \<Rightarrow> line list" where
  "stats_print stats fh =
     (let fh = fh @ [Header (distribution stats) (generator stats)];
          fh = fh @ [Samples (n stats)];
          fh = fh @ [MeanLine (mean stats)];
          variance = MPFR_DECL_INIT;
          stddev = MPFR_DECL_INIT;
          (variance, stddev) =
            (if 1 < n stats then
               let variance = mpfr_div_ui MPFR_PREC (m2 stats) (n stats - 1);
                   stddev = mpfr_sqrt MPFR_PREC variance
               in (variance, stddev)
             else (variance, stddev));
          fh = fh @ [VarianceLine variance];
          fh = fh @ [StddevLine stddev];
          fh = fh @ [Blank]
      in fh)"


section \<open>The steps of \<open>record\<close> as the specification words them\<close>

text \<open>
  The specification's \<open>record(observed, reference)\<close>: the relative error, then Welford's
  update with the count incremented first. Every operation is the MPFR operation at the
  working precision of 512 bits.
\<close>

definition spec_reldiff :: "mpfr \<Rightarrow> mpfr \<Rightarrow> mpfr" where
  "spec_reldiff observed reference =
     mpfr_div MPFR_PREC (mpfr_sub MPFR_PREC observed reference) (mpfr_abs MPFR_PREC reference)"

definition spec_delta :: "stats_t \<Rightarrow> mpfr \<Rightarrow> mpfr" where
  "spec_delta stats reldiff = mpfr_sub MPFR_PREC reldiff (mean stats)"

definition spec_mean :: "stats_t \<Rightarrow> mpfr \<Rightarrow> mpfr" where
  "spec_mean stats reldiff =
     mpfr_add MPFR_PREC (mean stats) (mpfr_div_ui MPFR_PREC (spec_delta stats reldiff) (n stats + 1))"

definition spec_m2 :: "stats_t \<Rightarrow> mpfr \<Rightarrow> mpfr" where
  "spec_m2 stats reldiff =
     mpfr_fma MPFR_PREC (spec_delta stats reldiff)
       (mpfr_sub MPFR_PREC reldiff (spec_mean stats reldiff)) (m2 stats)"

text \<open>Welford's update of a cell by one relative error.\<close>

definition welford :: "stats_t \<Rightarrow> mpfr \<Rightarrow> stats_t" where
  "welford stats reldiff =
     stats\<lparr> n := n stats + 1, mean := spec_mean stats reldiff, m2 := spec_m2 stats reldiff \<rparr>"

text \<open>A sequence of \<open>stats_add\<close> calls, each with its pair \<open>(y, ref)\<close>.\<close>

definition stats_add_all :: "stats_t \<Rightarrow> (mpfr \<times> mpfr) list \<Rightarrow> stats_t" where
  "stats_add_all stats calls = foldl (\<lambda>s (y, ref). stats_add s y ref) stats calls"

section \<open>Single-precision floats\<close>

text \<open>
  A \<open>float\<close> is its 32-bit pattern (the program builds floats through a union with
  \<open>uint32_t\<close>): sign bit, 8 exponent bits, 23 fraction bits.
\<close>

definition flt_sign :: "32 word \<Rightarrow> bool" where
  "flt_sign w = (2 ^ 31 \<le> unat w)"

definition flt_exponent :: "32 word \<Rightarrow> nat" where
  "flt_exponent w = (unat w div 2 ^ 23) mod 256"

definition flt_fraction :: "32 word \<Rightarrow> nat" where
  "flt_fraction w = unat w mod 2 ^ 23"

text \<open>Finite: neither an infinity nor a NaN, that is, the exponent field is not all ones.\<close>

definition flt_finite :: "32 word \<Rightarrow> bool" where
  "flt_finite w = (flt_exponent w \<noteq> 255)"

text \<open>The number a finite float denotes; exponent field 0 holds the zeros and the denormals.\<close>

definition flt_val :: "32 word \<Rightarrow> rat" where
  "flt_val w =
     (if flt_sign w then - 1 else 1) *
     (if flt_exponent w = 0 then of_nat (flt_fraction w) * 2 powi (- 149)
      else of_nat (2 ^ 23 + flt_fraction w) * 2 powi (int (flt_exponent w) - 150))"

text \<open>
  Rounding a number to the nearest float, ties to even, as the hardware does for a
  conversion or an arithmetic result: below \<open>2^-126\<close> the spacing is that of the denormals;
  a rounded magnitude of \<open>2^128\<close> or more is an infinity. A carry out of the fraction moves
  into the exponent field by itself.
\<close>

definition flt_round :: "rat \<Rightarrow> 32 word" where
  "flt_round x =
     (let e = max (expo x) (- 126);
          q = round_even (\<bar>x\<bar> / 2 powi (e - 23));
          bits = nat ((e + 126) * 2 ^ 23 + q);
          mag = (if x = 0 then 0 else if 0x7F800000 \<le> bits then 0x7F800000 else bits)
      in word_of_nat mag OR (if x < 0 then 0x80000000 else 0))"

text \<open>Conversion of an \<open>unsigned long\<close> to \<open>float\<close>.\<close>

definition flt_of_ulong :: "nat \<Rightarrow> 32 word" where
  "flt_of_ulong i = flt_round (of_nat i)"

text \<open>Division of two floats (IEEE 754): the exact quotient, rounded once.\<close>

definition flt_div :: "32 word \<Rightarrow> 32 word \<Rightarrow> 32 word" where
  "flt_div a b =
     (let s = (if flt_sign a \<noteq> flt_sign b then 0x80000000 else 0);
          nan = (\<lambda>w. \<not> flt_finite w \<and> flt_fraction w \<noteq> 0);
          inf = (\<lambda>w. \<not> flt_finite w \<and> flt_fraction w = 0);
          zero = (\<lambda>w. flt_finite w \<and> flt_val w = 0)
      in if nan a \<or> nan b \<or> (inf a \<and> inf b) \<or> (zero a \<and> zero b) then 0x7FC00000
         else if inf a \<or> zero b then s OR 0x7F800000
         else if inf b \<or> zero a then s
         else flt_round (flt_val a / flt_val b))"

text \<open>
  A value of a native floating-point type (\<open>float\<close>, \<open>double\<close>, \<open>long double\<close>,
  \<open>__float128\<close>) is handed to MPFR as the number it denotes: NaN, an infinity, a zero or a
  rational. For a \<open>float\<close> that number is read off the bit pattern.
\<close>

type_synonym native = mpfr

definition flt_widen :: "32 word \<Rightarrow> native" where
  "flt_widen w =
     (if \<not> flt_finite w then (if flt_fraction w = 0 then MInf (flt_sign w) else MNaN)
      else if flt_val w = 0 then MZero (flt_sign w)
      else MFin (flt_val w))"

text \<open>
  \<open>mpfr_set_flt\<close>, \<open>mpfr_set_d\<close>, \<open>mpfr_set_ld\<close>: the native value, rounded to the
  destination's precision.
\<close>

definition mpfr_set_native :: "nat \<Rightarrow> native \<Rightarrow> mpfr" where
  "mpfr_set_native p v = (case v of MFin x \<Rightarrow> mpfr_round p x | _ \<Rightarrow> v)"

definition mpfr_set_flt :: "nat \<Rightarrow> 32 word \<Rightarrow> mpfr" where
  "mpfr_set_flt p w = mpfr_set_native p (flt_widen w)"

definition mpfr_set_d :: "nat \<Rightarrow> native \<Rightarrow> mpfr" where
  "mpfr_set_d p v = mpfr_set_native p v"

definition mpfr_set_ld :: "nat \<Rightarrow> native \<Rightarrow> mpfr" where
  "mpfr_set_ld p v = mpfr_set_native p v"

section \<open>The random source and the three distributions\<close>

text \<open>
  GMP's generator is outside the program. Its state is modelled as the stream of the raw
  numbers it will deliver; \<open>gmp_urandomm_ui\<close> returns a number below its bound and
  \<open>gmp_urandomb_ui\<close> a number of the given count of bits, and each call uses up one raw
  number. Every sequence of results the two functions may return arises from some stream.
\<close>

type_synonym gmp_randstate_t = "nat stream"

definition gmp_urandomm_ui :: "gmp_randstate_t \<Rightarrow> nat \<Rightarrow> nat \<times> gmp_randstate_t" where
  "gmp_urandomm_ui state bound = (shd state mod bound, stl state)"

definition gmp_urandomb_ui :: "gmp_randstate_t \<Rightarrow> nat \<Rightarrow> nat \<times> gmp_randstate_t" where
  "gmp_urandomb_ui state bits = (shd state mod 2 ^ bits, stl state)"

definition gt_pid2_int :: "32 word" where "gt_pid2_int = 0x3fc90fdb"
definition gt_pid2_ls23_int :: "32 word" where "gt_pid2_ls23_int = 13176795"

definition getrandom_1 :: "gmp_randstate_t \<Rightarrow> 32 word \<times> gmp_randstate_t" where
  "getrandom_1 state =
     (let (r, state) = gmp_urandomm_ui state (unat gt_pid2_int);
          ui = (word_of_nat r :: 32 word)
      in (ui, state))"

definition getrandom_2 :: "gmp_randstate_t \<Rightarrow> 32 word \<times> gmp_randstate_t" where
  "getrandom_2 state =
     (let (r, state) = gmp_urandomm_ui state (unat gt_pid2_ls23_int);
          f = flt_of_ulong r
      in (flt_div f (flt_of_ulong (push_bit 23 1)), state))"

text \<open>The integer that \<open>getrandom_2\<close> draws.\<close>

definition uniform_draw :: "gmp_randstate_t \<Rightarrow> nat" where
  "uniform_draw state = fst (gmp_urandomm_ui state (unat gt_pid2_ls23_int))"

text \<open>
  The \<open>do ... while\<close> loop of \<open>getrandom_3\<close> draws again as long as the exponent bits are
  all ones. It need not end for every stream, so the result is optional: \<open>None\<close> stands for
  a loop that never ends.
\<close>

partial_function (option) getrandom_3 :: "gmp_randstate_t \<Rightarrow> (32 word \<times> gmp_randstate_t) option" where
  "getrandom_3 state =
     (let (r, state) = gmp_urandomb_ui state 32;
          ui = (word_of_nat r :: 32 word)
      in if ui AND 0x7F800000 = 0x7F800000 then getrandom_3 state else Some (ui, state))"

definition distribution_table ::
    "(string \<times> (gmp_randstate_t \<Rightarrow> (32 word \<times> gmp_randstate_t) option)) list" where
  "distribution_table =
     [(''+0 <= x < PI/2, non-uniform'', \<lambda>state. Some (getrandom_1 state)),
      (''+0 <= x < PI/2, uniform'', \<lambda>state. Some (getrandom_2 state)),
      (''all floats'', getrandom_3)]"

section \<open>The four evaluators\<close>

text \<open>
  The sine functions of the C library and of libquadmath, \<open>quadmath_snprintf\<close>,
  \<open>mpfr_set_str\<close>, \<open>mpfr_sin\<close> and the seeding of GMP's generator are outside the program:
  they are parameters of the model, collected in one record. \<open>quadmath_snprintf\<close> is given
  the buffer size and the value (the format is always \<open>%Qa\<close>); \<open>mpfr_set_str\<close> and
  \<open>mpfr_sin\<close> are given the precision of their destination.
\<close>

record libs =
  libm_sinf :: "32 word \<Rightarrow> 32 word"
  libm_sin :: "native \<Rightarrow> native"
  libm_sinl :: "native \<Rightarrow> native"
  libm_sinq :: "native \<Rightarrow> native"
  quadmath_snprintf :: "nat \<Rightarrow> native \<Rightarrow> string"
  mpfr_set_str :: "nat \<Rightarrow> string \<Rightarrow> mpfr"
  mpfr_sin :: "nat \<Rightarrow> mpfr \<Rightarrow> mpfr"
  gmp_randseed_ui :: "nat \<Rightarrow> gmp_randstate_t"

text \<open>Each evaluator writes its result to \<open>y\<close>, whose precision is the argument \<open>p\<close>.\<close>

definition getsin_flt :: "libs \<Rightarrow> nat \<Rightarrow> 32 word \<Rightarrow> mpfr" where
  "getsin_flt L p phase = mpfr_set_flt p (libm_sinf L phase)"

definition getsin_d :: "libs \<Rightarrow> nat \<Rightarrow> 32 word \<Rightarrow> mpfr" where
  "getsin_d L p phase = mpfr_set_d p (libm_sin L (flt_widen phase))"

definition getsin_ld :: "libs \<Rightarrow> nat \<Rightarrow> 32 word \<Rightarrow> mpfr" where
  "getsin_ld L p phase = mpfr_set_ld p (libm_sinl L (flt_widen phase))"

definition getsin_q :: "libs \<Rightarrow> nat \<Rightarrow> 32 word \<Rightarrow> mpfr" where
  "getsin_q L p phase =
     (let s = quadmath_snprintf L 64 (libm_sinq L (flt_widen phase))
      in mpfr_set_str L p s)"

definition generator_table :: "(string \<times> (libs \<Rightarrow> nat \<Rightarrow> 32 word \<Rightarrow> mpfr)) list" where
  "generator_table =
     [(''float'', getsin_flt), (''double'', getsin_d), (''long double'', getsin_ld),
      (''__float128'', getsin_q)]"

section \<open>The comparison loop of \<open>main\<close>\<close>

text \<open>
  The variables of \<open>main\<close>: the matrix \<open>stats\<close> of cells, the generator state, the two MPFR
  temporaries (\<open>mpfrtemp\<close> has 144 bits, \<open>refsin\<close> 512), and what has been written to
  \<open>stdout\<close>.
\<close>

record main_state =
  main_stats :: "stats_t list list"
  randstate :: gmp_randstate_t
  mpfrtemp :: mpfr
  refsin :: mpfr
  stdout :: "line list"

definition mpfrtemp_prec :: nat where "mpfrtemp_prec = 128 + 16"

definition main_init :: "libs \<Rightarrow> main_state" where
  "main_init L =
     \<lparr> main_stats = map (\<lambda>dist_ix. map (\<lambda>gen. stats_init (fst (distribution_table ! dist_ix))
                                                (fst (generator_table ! gen)))
                               [0..<length generator_table])
                   [0..<length distribution_table],
       randstate = gmp_randseed_ui L 1111,
       mpfrtemp = MPFR_DECL_INIT,
       refsin = MPFR_DECL_INIT,
       stdout = [] \<rparr>"

text \<open>The body of the inner loop, for one evaluator \<open>gen\<close>.\<close>

definition gen_step :: "libs \<Rightarrow> nat \<Rightarrow> 32 word \<Rightarrow> nat \<Rightarrow> main_state \<Rightarrow> main_state" where
  "gen_step L dist_ix phase gen st =
     (let st = st\<lparr>mpfrtemp := snd (generator_table ! gen) L mpfrtemp_prec phase\<rparr>
      in st\<lparr>main_stats := (main_stats st)[dist_ix := (main_stats st ! dist_ix)
                 [gen := stats_add (main_stats st ! dist_ix ! gen) (mpfrtemp st) (refsin st)]]\<rparr>)"

text \<open>
  The body of the loop over the distributions, for the distribution of index \<open>dist_ix\<close>: one sample,
  its reference sine, then every evaluator. \<open>None\<close> when drawing the sample never ends.
\<close>

definition dist_step :: "libs \<Rightarrow> nat \<Rightarrow> main_state \<Rightarrow> main_state option" where
  "dist_step L dist_ix st =
     (case snd (distribution_table ! dist_ix) (randstate st) of
        None \<Rightarrow> None
      | Some (phase, state) \<Rightarrow>
          (let st = st\<lparr>randstate := state\<rparr>;
               st = st\<lparr>mpfrtemp := mpfr_set_flt mpfrtemp_prec phase\<rparr>;
               st = st\<lparr>refsin := mpfr_sin L MPFR_PREC (mpfrtemp st)\<rparr>
           in Some (fold (gen_step L dist_ix phase) [0..<length generator_table] st)))"

fun dist_loop :: "libs \<Rightarrow> nat list \<Rightarrow> main_state \<Rightarrow> main_state option" where
  "dist_loop L [] st = Some st"
| "dist_loop L (dist_ix # rest) st =
     (case dist_step L dist_ix st of None \<Rightarrow> None | Some st \<Rightarrow> dist_loop L rest st)"

text \<open>Printing every cell, row by row.\<close>

definition print_all :: "main_state \<Rightarrow> main_state" where
  "print_all st =
     st\<lparr>stdout := fold (\<lambda>dist_ix fh. fold (\<lambda>gen fh. stats_print (main_stats st ! dist_ix ! gen) fh)
                                         [0..<length generator_table] fh)
                     [0..<length distribution_table] (stdout st)\<rparr>"

text \<open>
  The \<open>while (running)\<close> loop. The two flags are set by signal handlers, from outside the
  program: the model is given, for every iteration that runs, whether \<open>print\<close> was set when
  the iteration tested it; \<open>running\<close> is found false after the last of them.
\<close>

fun main_loop :: "libs \<Rightarrow> bool list \<Rightarrow> main_state \<Rightarrow> main_state option" where
  "main_loop L [] st = Some st"
| "main_loop L (print # prints) st =
     (case dist_loop L [0..<length distribution_table] st of
        None \<Rightarrow> None
      | Some st \<Rightarrow> main_loop L prints (if print then print_all st else st))"

text \<open>\<open>main\<close>: what has been printed when the program returns.\<close>

definition main :: "libs \<Rightarrow> bool list \<Rightarrow> line list option" where
  "main L prints =
     (case main_loop L prints (main_init L) of
        None \<Rightarrow> None
      | Some st \<Rightarrow> Some (stdout (print_all st)))"








section \<open>Runs of \<open>stats_add\<close>\<close>

text \<open>
  A run in which every relative error computed by \<open>stats_add\<close>, and every difference
  \<open>delta\<close> of it from the running mean, is a number (not NaN, not an infinity).
\<close>

fun finite_run :: "stats_t \<Rightarrow> (mpfr \<times> mpfr) list \<Rightarrow> bool" where
  "finite_run st [] = True"
| "finite_run st ((y, ref) # calls) =
     (mpfr_number_p (spec_reldiff y ref)
      \<and> mpfr_number_p (spec_delta st (spec_reldiff y ref))
      \<and> finite_run (stats_add st y ref) calls)"

text \<open>Every call of the run leaves \<open>m2\<close> at least as large as it was.\<close>

fun m2_nondecreasing :: "stats_t \<Rightarrow> (mpfr \<times> mpfr) list \<Rightarrow> bool" where
  "m2_nondecreasing st [] = True"
| "m2_nondecreasing st ((y, ref) # calls) =
     (mpfr_lessequal_p (m2 st) (m2 (stats_add st y ref))
      \<and> m2_nondecreasing (stats_add st y ref) calls)"

text \<open>Two values that are equal, or are both zeros (of either sign).\<close>

definition mpfr_same :: "mpfr \<Rightarrow> mpfr \<Rightarrow> bool" where
  "mpfr_same a b = (a = b \<or> (mpfr_zero_p a \<and> mpfr_zero_p b))"

text \<open>
  What holds of a cell after \<open>k\<close> calls of a run as above: the count is \<open>k\<close>, the mean is a
  number (zero before the first call), and \<open>m2\<close> is not below zero.
\<close>

definition cell_inv :: "stats_t \<Rightarrow> nat \<Rightarrow> bool" where
  "cell_inv st k =
     (unat (n st) = k \<and> mpfr_number_p (mean st) \<and> mpfr_wf MPFR_PREC (mean st)
      \<and> (if k = 0 then mpfr_val (mean st) = 0 else True)
      \<and> mpfr_wf MPFR_PREC (m2 st) \<and> mpfr_lessequal_p (MZero False) (m2 st))"

section \<open>Facts about rounding\<close>

subsection \<open>The binary exponent\<close>

lemma expo_bounds:
  assumes "x \<noteq> 0"
  shows "2 powi expo x \<le> \<bar>x\<bar>" and "\<bar>x\<bar> < 2 powi (expo x + 1)"
proof -
  have "2 powi expo x \<le> \<bar>x\<bar> \<and> \<bar>x\<bar> < 2 powi (expo x + 1)"
  proof (cases "1 \<le> \<bar>x\<bar>")
    case True
    define m where "m = \<lfloor>\<bar>x\<bar>\<rfloor>"
    have m1: "1 \<le> m" using True by (simp add: m_def le_floor_iff)
    then have bl: "1 \<le> bitlen m" by (simp add: bitlen_alt_def)
    from bitlen_bounds[of m] m1 have b: "2 ^ nat (bitlen m - 1) \<le> m" "m < 2 ^ nat (bitlen m)" by auto
    have e: "expo x = bitlen m - 1" using True by (simp add: expo_def m_def)
    have "(2::rat) powi expo x = 2 ^ nat (bitlen m - 1)"
      using bl by (simp add: e power_int_def)
    also have "\<dots> = of_int (2 ^ nat (bitlen m - 1))" by simp
    also have "\<dots> \<le> of_int m" using b(1) by (simp only: of_int_le_iff)
    also have "\<dots> \<le> \<bar>x\<bar>" by (simp add: m_def)
    finally have A: "2 powi expo x \<le> \<bar>x\<bar>" .
    have "\<bar>x\<bar> < of_int (m + 1)" unfolding m_def by linarith
    also have "\<dots> \<le> of_int (2 ^ nat (bitlen m))"
    proof -
      have "m + 1 \<le> 2 ^ nat (bitlen m)" using b(2) by simp
      then show ?thesis by (simp only: of_int_le_iff)
    qed
    also have "\<dots> = (2::rat) powi (expo x + 1)" using bl by (simp add: e power_int_def)
    finally show ?thesis using A by simp
  next
    case False
    define r where "r = 1 / \<bar>x\<bar>"
    define c where "c = \<lceil>r\<rceil>"
    have xpos: "0 < \<bar>x\<bar>" using assms by simp
    have r1: "1 < r" using False xpos by (simp add: r_def)
    have c2: "2 \<le> c" using r1 unfolding c_def by linarith
    define k where "k = bitlen (c - 1)"
    have k1: "1 \<le> k" using c2 by (simp add: k_def bitlen_alt_def)
    from bitlen_bounds[of "c - 1"] c2 have b: "2 ^ nat (k - 1) \<le> c - 1" "c - 1 < 2 ^ nat k"
      by (auto simp: k_def)
    have e: "expo x = - k" using False by (simp add: expo_def k_def c_def r_def)
    have "r \<le> of_int c" by (simp add: c_def)
    also have "\<dots> \<le> of_int (2 ^ nat k)"
    proof -
      have "c \<le> 2 ^ nat k" using b(2) by simp
      then show ?thesis by (simp only: of_int_le_iff)
    qed
    also have "\<dots> = (2::rat) powi k" using k1 by (simp add: power_int_def)
    finally have "r \<le> 2 powi k" .
    then have A: "2 powi (- k) \<le> \<bar>x\<bar>" using xpos
      by (simp add: r_def power_int_minus field_simps)
    have "(2::rat) powi (k - 1) = of_int (2 ^ nat (k - 1))" using k1 by (simp add: power_int_def)
    also have "\<dots> \<le> of_int (c - 1)" using b(1) by (simp only: of_int_le_iff)
    also have "\<dots> < r" unfolding c_def by linarith
    finally have "2 powi (k - 1) < r" .
    then have "\<bar>x\<bar> * 2 powi (k - 1) < 1" using xpos
      by (simp add: r_def field_simps)
    then have "\<bar>x\<bar> < 1 / 2 powi (k - 1)"
      by (simp add: field_simps)
    also have "\<dots> = 2 powi (- k + 1)"
      using power_int_minus_divide[of "2::rat" "k - 1"] by simp
    finally show ?thesis using A by (simp add: e)
  qed
  then show "2 powi expo x \<le> \<bar>x\<bar>" and "\<bar>x\<bar> < 2 powi (expo x + 1)" by simp_all
qed

lemma two_powi_le_iff: "(2::rat) powi a \<le> 2 powi b \<longleftrightarrow> a \<le> b"
proof
  assume h: "(2::rat) powi a \<le> 2 powi b"
  show "a \<le> b"
  proof (rule ccontr)
    assume "\<not> a \<le> b"
    then have "b < a" by simp
    then have "(2::rat) powi b < 2 powi a" by (rule power_int_strict_increasing) simp
    with h show False by simp
  qed
next
  assume "a \<le> b"
  then show "(2::rat) powi a \<le> 2 powi b" by (rule power_int_increasing) simp
qed

lemma two_powi_less_iff: "(2::rat) powi a < 2 powi b \<longleftrightarrow> a < b"
  using two_powi_le_iff[of b a] by (simp add: not_le[symmetric])

lemma expo_unique:
  assumes "2 powi e \<le> \<bar>x\<bar>" and "\<bar>x\<bar> < 2 powi (e + 1)"
  shows "expo x = e"
proof -
  have pos: "(0::rat) < 2 powi e" by simp
  have "0 < \<bar>x\<bar>" using assms(1) pos by linarith
  then have x0: "x \<noteq> 0" by simp
  note b = expo_bounds[OF x0]
  have "(2::rat) powi e < 2 powi (expo x + 1)" using assms(1) b(2) by linarith
  then have 1: "e < expo x + 1" by (simp add: two_powi_less_iff)
  have "(2::rat) powi expo x < 2 powi (e + 1)" using assms(2) b(1) by linarith
  then have 2: "expo x < e + 1" by (simp add: two_powi_less_iff)
  show ?thesis using 1 2 by simp
qed

lemma round_even_of_int: "round_even (of_int k) = k"
  by (simp add: round_even_def)

lemma round_even_cases:
  "round_even q = \<lfloor>q\<rfloor> \<or> round_even q = \<lfloor>q\<rfloor> + 1"
  by (simp add: round_even_def Let_def)

lemma round_even_near:
  assumes "\<bar>q - of_int k\<bar> < 1/2"
  shows "round_even q = k"
proof (cases "of_int k \<le> q")
  case True
  then have f: "\<lfloor>q\<rfloor> = k" using assms by (intro floor_unique) (auto simp: abs_if split: if_splits)
  have "q - of_int k < 1/2" using assms True by simp
  then show ?thesis by (simp add: round_even_def f)
next
  case False
  then have f: "\<lfloor>q\<rfloor> = k - 1" using assms by (intro floor_unique) (auto simp: abs_if split: if_splits)
  have "1/2 < q - of_int (k - 1)" using assms False by (simp add: abs_if split: if_splits)
  then show ?thesis by (simp add: round_even_def f)
qed

lemma round_even_lower: "q - 1/2 \<le> of_int (round_even q)"
  unfolding round_even_def Let_def by (auto; linarith)

lemma round_even_upper: "of_int (round_even q) \<le> q + 1/2"
  unfolding round_even_def Let_def by (auto; linarith)

lemma round_even_mono:
  assumes "a \<le> b"
  shows "round_even a \<le> round_even b"
proof (cases "\<lfloor>a\<rfloor> = \<lfloor>b\<rfloor>")
  case True
  then show ?thesis using assms unfolding round_even_def Let_def by auto
next
  case False
  then have lt: "\<lfloor>a\<rfloor> + 1 \<le> \<lfloor>b\<rfloor>" using floor_mono[OF assms] by simp
  have "round_even a \<le> \<lfloor>a\<rfloor> + 1" using round_even_cases[of a] by auto
  moreover have "\<lfloor>b\<rfloor> \<le> round_even b" using round_even_cases[of b] by auto
  ultimately show ?thesis using lt by simp
qed

lemma round_even_minus: "round_even (- q) = - round_even q"
proof (cases "q \<in> \<int>")
  case True
  then obtain k where "q = of_int k" by (auto elim: Ints_cases)
  then show ?thesis using round_even_of_int[of "- k"] round_even_of_int[of k] by simp
next
  case False
  then have "q \<noteq> of_int \<lfloor>q\<rfloor>" by (metis Ints_of_int)
  then have f: "\<lfloor>- q\<rfloor> = - \<lfloor>q\<rfloor> - 1"
    by (simp add: floor_minus ceiling_altdef)
  show ?thesis unfolding round_even_def Let_def f
    by (auto simp: field_simps; linarith)
qed

lemma expo_minus: "expo (- x) = expo x"
  by (simp add: expo_def)

lemma expo_abs: "expo \<bar>x\<bar> = expo x"
  by (simp add: expo_def)

lemma expo_mono:
  assumes "x \<noteq> 0" "\<bar>x\<bar> \<le> \<bar>y\<bar>"
  shows "expo x \<le> expo y"
proof -
  have y0: "y \<noteq> 0" using assms by auto
  have "(2::rat) powi expo x \<le> \<bar>x\<bar>" using expo_bounds(1)[OF assms(1)] .
  also have "\<dots> \<le> \<bar>y\<bar>" by fact
  also have "\<dots> < 2 powi (expo y + 1)" using expo_bounds(2)[OF y0] .
  finally show ?thesis by (simp add: two_powi_less_iff)
qed

lemma expo_two_powi: "expo (2 powi e) = e"
  by (rule expo_unique) (simp_all add: two_powi_less_iff)

lemma expo_times_two_powi:
  assumes "x \<noteq> 0"
  shows "expo (x * 2 powi k) = expo x + k"
proof (rule expo_unique)
  have p: "(0::rat) < 2 powi k" by simp
  have "2 powi (expo x + k) = (2::rat) powi expo x * 2 powi k" by (simp add: power_int_add)
  also have "\<dots> \<le> \<bar>x\<bar> * 2 powi k" using expo_bounds(1)[OF assms] p by (simp add: mult_right_mono)
  finally show "2 powi (expo x + k) \<le> \<bar>x * 2 powi k\<bar>" by (simp add: abs_mult)
  have "\<bar>x\<bar> * 2 powi k < (2::rat) powi (expo x + 1) * 2 powi k"
    using expo_bounds(2)[OF assms] p by (simp add: mult_strict_right_mono)
  also have "\<dots> = 2 powi (expo x + k + 1)" by (simp add: power_int_add)
  finally show "\<bar>x * 2 powi k\<bar> < 2 powi (expo x + k + 1)" by (simp add: abs_mult)
qed

subsection \<open>Rounding with an unbounded exponent\<close>

lemma ulp_pos: "0 < ulp p x" by (simp add: ulp_def)

lemma ulp_minus: "ulp p (- x) = ulp p x" by (simp add: ulp_def expo_minus)

lemma two_powi_add: "(2::rat) powi a * 2 powi b = 2 powi (a + b)"
  by (simp add: power_int_add)

lemma scaled_bounds:
  assumes "x \<noteq> 0"
  shows "2 powi (int p - 1) \<le> \<bar>x\<bar> / ulp p x" and "\<bar>x\<bar> / ulp p x < 2 powi (int p)"
proof -
  have e: "(2::rat) powi expo x = 2 powi (int p - 1) * ulp p x"
    unfolding ulp_def two_powi_add by simp
  have e2: "(2::rat) powi (expo x + 1) = 2 powi (int p) * ulp p x"
    unfolding ulp_def two_powi_add by simp
  show "2 powi (int p - 1) \<le> \<bar>x\<bar> / ulp p x"
    using expo_bounds(1)[OF assms] ulp_pos[of p x] by (simp add: e pos_le_divide_eq)
  show "\<bar>x\<bar> / ulp p x < 2 powi (int p)"
    using expo_bounds(2)[OF assms] ulp_pos[of p x] by (simp add: e2 pos_divide_less_eq)
qed

lemma rnd_minus: "rnd p (- x) = - rnd p x"
  by (simp add: rnd_def ulp_minus round_even_minus)

lemma rnd_zero: "rnd p 0 = 0"
  by (simp add: rnd_def round_even_def)

lemma of_int_two_power: "(of_int (2 ^ k) :: rat) = 2 powi (int k)"
  by simp

lemma rnd_bounds_pos:
  assumes "0 < x" "0 < p"
  shows "2 powi expo x \<le> rnd p x" and "rnd p x \<le> 2 powi (expo x + 1)"
proof -
  have x0: "x \<noteq> 0" using assms by simp
  have q: "2 powi (int p - 1) \<le> x / ulp p x" "x / ulp p x < 2 powi (int p)"
    using scaled_bounds[OF x0, of p] assms by simp_all
  have "int p - 1 = int (p - 1)" using assms by simp
  then have a: "(2::rat) powi (int p - 1) = of_int (2 ^ (p - 1))"
    by (simp only: power_int_of_nat) simp
  have "2 ^ (p - 1) \<le> round_even (x / ulp p x)"
    using round_even_mono[OF q(1)[unfolded a]] by (simp only: round_even_of_int)
  then have "(of_int (2 ^ (p - 1)) :: rat) \<le> of_int (round_even (x / ulp p x))"
    by (simp only: of_int_le_iff)
  then have "2 powi (int p - 1) * ulp p x \<le> rnd p x"
    unfolding rnd_def a using ulp_pos[of p x] by (simp only: mult_le_cancel_right_pos)
  then show "2 powi expo x \<le> rnd p x"
    unfolding ulp_def two_powi_add by simp
  have b: "(2::rat) powi (int p) = of_int (2 ^ p)" by simp
  have "x / ulp p x \<le> of_int (2 ^ p)" using q(2) unfolding b by simp
  from round_even_mono[OF this] have "round_even (x / ulp p x) \<le> 2 ^ p"
    by (simp only: round_even_of_int)
  then have "(of_int (round_even (x / ulp p x)) :: rat) \<le> of_int (2 ^ p)"
    by (simp only: of_int_le_iff)
  then have "rnd p x \<le> 2 powi (int p) * ulp p x"
    unfolding rnd_def b using ulp_pos[of p x] by (simp only: mult_le_cancel_right_pos)
  then show "rnd p x \<le> 2 powi (expo x + 1)"
    unfolding ulp_def two_powi_add by simp
qed

lemma rnd_pos: "0 < x \<Longrightarrow> 0 < p \<Longrightarrow> 0 < rnd p x"
  using rnd_bounds_pos(1)[of x p] zero_less_power_int[of "2::rat" "expo x"] by linarith

lemma rnd_neg: "x < 0 \<Longrightarrow> 0 < p \<Longrightarrow> rnd p x < 0"
  using rnd_pos[of "- x" p] by (simp add: rnd_minus)

lemma rnd_abs: "\<bar>rnd p x\<bar> = rnd p \<bar>x\<bar>" if "0 < p"
proof (cases "x = 0")
  case True then show ?thesis by (simp add: rnd_zero)
next
  case False
  show ?thesis
  proof (cases "0 < x")
    case True then show ?thesis using rnd_pos[OF True that] by simp
  next
    case F: False
    then have "x < 0" using False by simp
    then show ?thesis using rnd_neg[OF _ that, of x] by (simp add: rnd_minus)
  qed
qed

lemma expo_ge:
  assumes "2 powi e \<le> \<bar>x\<bar>"
  shows "e \<le> expo x"
proof -
  have "(0::rat) < 2 powi e" by simp
  then have "0 < \<bar>x\<bar>" using assms by linarith
  then have "x \<noteq> 0" by simp
  from expo_bounds(2)[OF this] assms have "(2::rat) powi e < 2 powi (expo x + 1)" by linarith
  then show ?thesis by (simp add: two_powi_less_iff)
qed

lemma expo_rnd_ge:
  assumes "x \<noteq> 0" "0 < p"
  shows "expo x \<le> expo (rnd p x)"
proof -
  have "2 powi expo x \<le> rnd p \<bar>x\<bar>"
    using rnd_bounds_pos(1)[of "\<bar>x\<bar>" p] assms by (simp add: expo_abs)
  then show ?thesis using rnd_abs[OF assms(2), of x] by (intro expo_ge) simp
qed

lemma rnd_exact: "mpfr_fits p x \<Longrightarrow> rnd p x = x"
proof -
  assume "mpfr_fits p x"
  then have e: "x / ulp p x = of_int \<lfloor>x / ulp p x\<rfloor>" unfolding mpfr_fits_def by (rule sym)
  have "round_even (x / ulp p x) = \<lfloor>x / ulp p x\<rfloor>"
    using round_even_of_int[of "\<lfloor>x / ulp p x\<rfloor>"] e by simp
  then have "rnd p x = of_int \<lfloor>x / ulp p x\<rfloor> * ulp p x"
    unfolding rnd_def by simp
  also have "\<dots> = (x / ulp p x) * ulp p x" using e by simp
  also have "\<dots> = x" using ulp_pos[of p x] by simp
  finally show ?thesis .
qed

lemma rnd_mono_pos:
  assumes "0 < x" "x \<le> y" "0 < p"
  shows "rnd p x \<le> rnd p y"
proof (cases "expo x = expo y")
  case True
  then have u: "ulp p x = ulp p y" by (simp add: ulp_def)
  have "x / ulp p y \<le> y / ulp p y" using assms ulp_pos[of p y] by (simp add: divide_right_mono)
  from round_even_mono[OF this] show ?thesis
    unfolding rnd_def u using ulp_pos[of p y] by (simp add: mult_right_mono)
next
  case False
  have "expo x \<le> expo y" using assms by (intro expo_mono) auto
  then have lt: "expo x + 1 \<le> expo y" using False by simp
  have "rnd p x \<le> 2 powi (expo x + 1)" using rnd_bounds_pos(2) assms by simp
  also have "\<dots> \<le> 2 powi expo y" using lt by (simp add: two_powi_le_iff)
  also have "\<dots> \<le> rnd p y" using rnd_bounds_pos(1)[of y p] assms by simp
  finally show ?thesis .
qed

lemma rnd_mono:
  assumes "x \<le> y" "0 < p"
  shows "rnd p x \<le> rnd p y"
proof -
  consider "0 < x" | "x = 0" | "x < 0" "0 < y" | "x < 0" "y = 0" | "x < 0" "y < 0" 
    using assms by fastforce
  then show ?thesis
  proof cases
    case 1 then show ?thesis using rnd_mono_pos assms by simp
  next
    case 2 
    show ?thesis
    proof (cases "y = 0")
      case True then show ?thesis using 2 by simp
    next
      case False
      then have "0 < y" using 2 assms by simp
      then show ?thesis using rnd_pos[of y p] assms 2 by (simp add: rnd_zero)
    qed
  next
    case 3 then show ?thesis using rnd_pos[of y p] rnd_neg[of x p] assms by simp
  next
    case 4 then show ?thesis using rnd_neg[of x p] assms by (simp add: rnd_zero)
  next
    case 5
    then have "rnd p (- y) \<le> rnd p (- x)" using assms by (intro rnd_mono_pos) auto
    then show ?thesis by (simp add: rnd_minus)
  qed
qed

subsection \<open>Rounding in MPFR's exponent range\<close>

lemma fits_iff_Ints: "mpfr_fits p x \<longleftrightarrow> x / ulp p x \<in> \<int>"
  unfolding mpfr_fits_def
proof
  assume "rat_of_int \<lfloor>x / ulp p x\<rfloor> = x / ulp p x"
  then show "x / ulp p x \<in> \<int>" by (metis Ints_of_int)
next
  assume "x / ulp p x \<in> \<int>"
  then show "rat_of_int \<lfloor>x / ulp p x\<rfloor> = x / ulp p x" by (auto elim: Ints_cases)
qed

lemma fits_minus: "mpfr_fits p (- x) = mpfr_fits p x"
  unfolding fits_iff_Ints ulp_minus by (metis Ints_minus minus_divide_left minus_minus)

lemma fits_two_powi: "0 < p \<Longrightarrow> mpfr_fits p (2 powi k)"
proof -
  assume p: "0 < p"
  have "int p - 1 = int (p - 1)" using p by simp
  then have a: "(2::rat) powi (int p - 1) = of_int (2 ^ (p - 1))"
    by (simp only: power_int_of_nat) simp
  have "(2::rat) powi (int p - 1) * ulp p (2 powi k) = 2 powi k"
    unfolding ulp_def expo_two_powi two_powi_add by simp
  then have "(2::rat) powi k / ulp p (2 powi k) = 2 powi (int p - 1)"
    using ulp_pos[of p "2 powi k"] by (simp add: field_simps)
  then show ?thesis unfolding fits_iff_Ints a by (metis Ints_of_int)
qed

lemma rnd_fits_pos:
  assumes "0 < x" "0 < p"
  shows "mpfr_fits p (rnd p x)"
proof (cases "rnd p x < 2 powi (expo x + 1)")
  case True
  have "expo (rnd p x) = expo x"
    using rnd_bounds_pos(1)[OF assms] True rnd_pos[OF assms] by (intro expo_unique) simp_all
  then have u: "ulp p (rnd p x) = ulp p x" by (simp add: ulp_def)
  have "rnd p x / ulp p x = of_int (round_even (x / ulp p x))"
    unfolding rnd_def using ulp_pos[of p x] by simp
  then show ?thesis unfolding fits_iff_Ints u by (metis Ints_of_int)
next
  case False
  then have "rnd p x = 2 powi (expo x + 1)" using rnd_bounds_pos(2)[OF assms] by simp
  then show ?thesis using fits_two_powi[OF assms(2)] by simp
qed

lemma rnd_fits:
  assumes "x \<noteq> 0" "0 < p"
  shows "mpfr_fits p (rnd p x)"
proof (cases "0 < x")
  case True then show ?thesis using rnd_fits_pos assms by simp
next
  case False
  then have "0 < - x" using assms by simp
  from rnd_fits_pos[OF this assms(2)] show ?thesis by (simp add: rnd_minus fits_minus)
qed

lemma rnd_nonzero: "x \<noteq> 0 \<Longrightarrow> 0 < p \<Longrightarrow> rnd p x \<noteq> 0"
  using rnd_pos[of x p] rnd_neg[of x p] by (cases "0 < x") auto

lemma expo_less_iff:
  assumes "x \<noteq> 0"
  shows "expo x < k \<longleftrightarrow> \<bar>x\<bar> < 2 powi k"
proof
  assume "expo x < k"
  then have "(2::rat) powi (expo x + 1) \<le> 2 powi k" by (simp add: two_powi_le_iff)
  with expo_bounds(2)[OF assms] show "\<bar>x\<bar> < 2 powi k" by linarith
next
  assume a: "\<bar>x\<bar> < 2 powi k"
  show "expo x < k"
  proof (rule ccontr)
    assume "\<not> expo x < k"
    then have "(2::rat) powi k \<le> 2 powi expo x" by (simp add: two_powi_le_iff)
    with expo_bounds(1)[OF assms] a show False by linarith
  qed
qed

lemma emin_le_emax: "mpfr_emin \<le> mpfr_emax"
  by (simp add: mpfr_emin_def mpfr_emax_def)

lemma mpfr_round_exact: "mpfr_regular p x \<Longrightarrow> mpfr_round p x = MFin x"
  by (simp add: mpfr_regular_def mpfr_round_def rnd_exact)

lemma mpfr_round_zero: "mpfr_round p 0 = MZero False"
  by (simp add: mpfr_round_def)

lemma mpfr_round_regular:
  assumes "mpfr_round p x = MFin r" "0 < p"
  shows "mpfr_regular p r"
proof -
  have x0: "x \<noteq> 0" using assms by (auto simp: mpfr_round_def)
  show ?thesis
  proof (cases "expo (rnd p x) + 1 < mpfr_emin")
    case True
    then have r: "r = sgn x * 2 powi (mpfr_emin - 1)"
      using assms x0 emin_le_emax by (auto simp: mpfr_round_def Let_def split: if_splits)
    have "r = 2 powi (mpfr_emin - 1) \<or> r = - (2 powi (mpfr_emin - 1))"
      using x0 r by (cases "0 < x") (auto simp: sgn_if)
    then have "mpfr_fits p r" "expo r = mpfr_emin - 1" "r \<noteq> 0"
      using fits_two_powi[OF assms(2), of "mpfr_emin - 1"]
      by (auto simp: fits_minus expo_minus expo_two_powi)
    then show ?thesis using emin_le_emax by (simp add: mpfr_regular_def)
  next
    case False
    then have "r = rnd p x" "expo (rnd p x) + 1 \<le> mpfr_emax"
      using assms x0 by (auto simp: mpfr_round_def Let_def split: if_splits)
    then show ?thesis using False rnd_fits[OF x0 assms(2)] rnd_nonzero[OF x0 assms(2)]
      by (simp add: mpfr_regular_def)
  qed
qed

lemma mpfr_round_minus: "mpfr_round p (- x) = mpfr_negate (mpfr_round p x)" if "x \<noteq> 0"
proof -
  have "(- x < 0) = (\<not> x < 0)" using that by auto
  then show ?thesis using that
    by (simp add: mpfr_round_def Let_def rnd_minus expo_minus mpfr_negate_def sgn_minus)
qed

lemma mpfr_round_pos_cases:
  assumes "0 < x" "0 < p"
  obtains (over) "mpfr_emax < expo (rnd p x) + 1" "mpfr_round p x = MInf False"
  | (zero) "expo (rnd p x) + 1 < mpfr_emin" "x \<le> 2 powi (mpfr_emin - 2)" "mpfr_round p x = MZero False"
  | (tiny) "expo (rnd p x) + 1 < mpfr_emin" "2 powi (mpfr_emin - 2) < x"
           "mpfr_round p x = MFin (2 powi (mpfr_emin - 1))"
  | (normal) "mpfr_emin \<le> expo (rnd p x) + 1" "expo (rnd p x) + 1 \<le> mpfr_emax"
           "mpfr_round p x = MFin (rnd p x)"
proof -
  have x0: "x \<noteq> 0" using assms by simp
  have iff: "(expo x < mpfr_emin - 2 \<or> \<bar>x\<bar> = 2 powi (mpfr_emin - 2)) \<longleftrightarrow> x \<le> 2 powi (mpfr_emin - 2)"
    using expo_less_iff[OF x0, of "mpfr_emin - 2"] assms(1) by auto
  consider "mpfr_emax < expo (rnd p x) + 1"
    | "\<not> mpfr_emax < expo (rnd p x) + 1" "expo (rnd p x) + 1 < mpfr_emin" "x \<le> 2 powi (mpfr_emin - 2)"
    | "\<not> mpfr_emax < expo (rnd p x) + 1" "expo (rnd p x) + 1 < mpfr_emin" "\<not> x \<le> 2 powi (mpfr_emin - 2)"
    | "\<not> mpfr_emax < expo (rnd p x) + 1" "\<not> expo (rnd p x) + 1 < mpfr_emin"
    by blast
  then show thesis
  proof cases
    case 1
    then show ?thesis using x0 assms by (intro over) (simp_all add: mpfr_round_def)
  next
    case 2
    then show ?thesis using x0 assms iff by (intro zero) (simp_all add: mpfr_round_def)
  next
    case 3
    then show ?thesis using x0 assms iff by (intro tiny) (simp_all add: mpfr_round_def)
  next
    case 4
    then show ?thesis using x0 assms by (intro normal) (simp_all add: mpfr_round_def)
  qed
qed

lemma le_trans_mpfr:
  "mpfr_lessequal_p a b \<Longrightarrow> mpfr_lessequal_p b c \<Longrightarrow> mpfr_lessequal_p a c"
  by (cases a; cases b; cases c)
     (auto simp: mpfr_lessequal_p_def mpfr_nan_p_def mpfr_inf_p_def mpfr_signbit_def mpfr_val_def
           split: if_splits)

lemma le_negate_mpfr:
  "mpfr_lessequal_p (mpfr_negate a) (mpfr_negate b) = mpfr_lessequal_p b a"
  by (cases a; cases b)
     (auto simp: mpfr_lessequal_p_def mpfr_nan_p_def mpfr_inf_p_def mpfr_signbit_def mpfr_val_def
           mpfr_negate_def)

lemma mpfr_round_nonneg:
  assumes "0 < x" "0 < p"
  shows "mpfr_lessequal_p (MZero False) (mpfr_round p x)"
  using assms
proof (cases rule: mpfr_round_pos_cases[of x p])
  case normal
  then show ?thesis using rnd_pos[OF assms]
    by (simp add: mpfr_lessequal_p_def mpfr_nan_p_def mpfr_inf_p_def mpfr_val_def)
qed (simp_all add: mpfr_lessequal_p_def mpfr_nan_p_def mpfr_inf_p_def mpfr_val_def mpfr_signbit_def)

lemma le_zero_fin: "mpfr_lessequal_p (MZero s) (MFin r) = (0 \<le> r)"
  by (simp add: mpfr_lessequal_p_def mpfr_nan_p_def mpfr_inf_p_def mpfr_val_def)

lemma le_fin_fin: "mpfr_lessequal_p (MFin a) (MFin b) = (a \<le> b)"
  by (simp add: mpfr_lessequal_p_def mpfr_nan_p_def mpfr_inf_p_def mpfr_val_def)

lemma le_fin_zero: "mpfr_lessequal_p (MFin a) (MZero s) = (a \<le> 0)"
  by (simp add: mpfr_lessequal_p_def mpfr_nan_p_def mpfr_inf_p_def mpfr_val_def)

lemma le_zero_zero: "mpfr_lessequal_p (MZero s) (MZero t)"
  by (simp add: mpfr_lessequal_p_def mpfr_nan_p_def mpfr_inf_p_def mpfr_val_def)

lemma le_pinf: "mpfr_lessequal_p a (MInf False) = (a \<noteq> MNaN)"
  by (cases a) (simp_all add: mpfr_lessequal_p_def mpfr_nan_p_def mpfr_inf_p_def mpfr_signbit_def)

lemma le_refl_mpfr: "a \<noteq> MNaN \<Longrightarrow> mpfr_lessequal_p a a"
  by (cases a) (simp_all add: mpfr_lessequal_p_def mpfr_nan_p_def mpfr_inf_p_def mpfr_signbit_def)

lemma mpfr_round_mono_pos:
  assumes "0 < x" "x \<le> y" "0 < p"
  shows "mpfr_lessequal_p (mpfr_round p x) (mpfr_round p y)"
proof -
  have y: "0 < y" using assms by simp
  have r: "rnd p x \<le> rnd p y" using rnd_mono_pos[OF assms] .
  have rx: "0 < rnd p x" using rnd_pos assms by simp
  have ry: "0 < rnd p y" using rnd_pos y assms by simp
  have ee: "expo (rnd p x) \<le> expo (rnd p y)" using r rx by (intro expo_mono) auto
  have mm: "mpfr_emin \<le> mpfr_emax" by (rule emin_le_emax)
  have low: "2 powi (mpfr_emin - 1) \<le> rnd p y" if "mpfr_emin \<le> expo (rnd p y) + 1"
  proof -
    have "(2::rat) powi (mpfr_emin - 1) \<le> 2 powi expo (rnd p y)"
      using that by (simp add: two_powi_le_iff)
    also have "\<dots> \<le> \<bar>rnd p y\<bar>" using ry by (intro expo_bounds(1)) simp
    finally show ?thesis using ry by simp
  qed
  have pw: "(0::rat) \<le> 2 powi (mpfr_emin - 1)" by simp
  from assms(1,3) show ?thesis
  proof (cases rule: mpfr_round_pos_cases[of x p])
    case xo: over
    from y assms(3) show ?thesis
    proof (cases rule: mpfr_round_pos_cases[of y p])
      case over then show ?thesis by (simp add: xo le_pinf)
    next
      case zero then show ?thesis using xo ee mm by linarith
    next
      case tiny then show ?thesis using xo ee mm by linarith
    next
      case normal then show ?thesis using xo ee by linarith
    qed
  next
    case xz: zero
    from y assms(3) show ?thesis
    proof (cases rule: mpfr_round_pos_cases[of y p])
      case over then show ?thesis by (simp add: xz le_pinf)
    next
      case zero then show ?thesis by (simp add: xz le_zero_zero)
    next
      case tiny then show ?thesis using pw by (simp only: xz le_zero_fin)
    next
      case normal then show ?thesis using ry by (simp add: xz le_zero_fin)
    qed
  next
    case xt: tiny
    from y assms(3) show ?thesis
    proof (cases rule: mpfr_round_pos_cases[of y p])
      case over then show ?thesis by (simp add: xt le_pinf)
    next
      case zero then show ?thesis using xt(2) assms(2) by linarith
    next
      case tiny then show ?thesis by (simp only: xt le_fin_fin)
    next
      case normal then show ?thesis using low by (simp only: xt le_fin_fin)
    qed
  next
    case xn: normal
    from y assms(3) show ?thesis
    proof (cases rule: mpfr_round_pos_cases[of y p])
      case over then show ?thesis by (simp add: xn le_pinf)
    next
      case zero then show ?thesis using xn ee by linarith
    next
      case tiny then show ?thesis using xn ee by linarith
    next
      case normal then show ?thesis using r by (simp only: xn le_fin_fin)
    qed
  qed
qed

lemma mpfr_round_mono:
  assumes "x \<le> y" "0 < p"
  shows "mpfr_lessequal_p (mpfr_round p x) (mpfr_round p y)"
proof -
  have z: "mpfr_lessequal_p (MZero False) (MZero False)"
    by (simp add: mpfr_lessequal_p_def mpfr_nan_p_def mpfr_inf_p_def)
  have neg: "mpfr_lessequal_p (mpfr_round p a) (MZero False)" if "a < 0" for a
  proof -
    have "mpfr_lessequal_p (MZero False) (mpfr_round p (- a))"
      using that assms(2) by (intro mpfr_round_nonneg) simp_all
    then have "mpfr_lessequal_p (mpfr_negate (mpfr_round p (- a))) (mpfr_negate (MZero False))"
      by (simp only: le_negate_mpfr)
    moreover have "mpfr_lessequal_p (mpfr_negate (MZero False)) (MZero False)"
      by (simp add: mpfr_negate_def mpfr_lessequal_p_def mpfr_nan_p_def mpfr_inf_p_def mpfr_val_def)
    ultimately show ?thesis using that mpfr_round_minus[of "- a" p] le_trans_mpfr by force
  qed
  consider "0 < x" | "x = 0" "y = 0" | "x = 0" "0 < y" | "x < 0" "0 < y" | "x < 0" "y = 0" | "x < 0" "y < 0"
    using assms by fastforce
  then show ?thesis
  proof cases
    case 1 then show ?thesis using mpfr_round_mono_pos assms by simp
  next
    case 2 then show ?thesis using z by (simp add: mpfr_round_zero)
  next
    case 3 then show ?thesis using mpfr_round_nonneg[of y p] assms by (simp add: mpfr_round_zero)
  next
    case 4 then show ?thesis using neg[of x] mpfr_round_nonneg[of y p] assms le_trans_mpfr by blast
  next
    case 5 then show ?thesis using neg[of x] by (simp add: mpfr_round_zero)
  next
    case 6
    then have "mpfr_lessequal_p (mpfr_round p (- y)) (mpfr_round p (- x))"
      using assms by (intro mpfr_round_mono_pos) auto
    then show ?thesis using 6 mpfr_round_minus[of x p] mpfr_round_minus[of y p]
      by (simp add: le_negate_mpfr)
  qed
qed

section \<open>Properties of \<open>stats_add\<close> and \<open>stats_print\<close>\<close>

lemma stats_add_welford: "stats_add stats y ref = welford stats (spec_reldiff y ref)"
  by (simp add: stats_add_def welford_def spec_reldiff_def spec_delta_def spec_mean_def
      spec_m2_def Let_def)

text \<open>
  Claim C1. Every call \<open>stats_add(stats, y, ref)\<close> adds one to the count \<open>n\<close> (an
  \<open>unsigned long\<close>, so the addition is the machine's) and performs exactly the stated
  steps at 512 bits: \<open>reldiff = (y - ref) / |ref|\<close>, \<open>delta = reldiff - mean\<close>, the new mean is
  the old mean plus \<open>delta / n\<close> with the incremented \<open>n\<close>, the new \<open>m2\<close> is
  \<open>fma(delta, reldiff - new mean, old m2)\<close>; the two names of the cell do not change.
\<close>

theorem stats_add_steps:
  "n (stats_add stats y ref) = n stats + 1
   \<and> mean (stats_add stats y ref) =
       mpfr_add MPFR_PREC (mean stats)
         (mpfr_div_ui MPFR_PREC (mpfr_sub MPFR_PREC (spec_reldiff y ref) (mean stats)) (n stats + 1))
   \<and> m2 (stats_add stats y ref) =
       mpfr_fma MPFR_PREC (mpfr_sub MPFR_PREC (spec_reldiff y ref) (mean stats))
         (mpfr_sub MPFR_PREC (spec_reldiff y ref) (mean (stats_add stats y ref))) (m2 stats)
   \<and> distribution (stats_add stats y ref) = distribution stats
   \<and> generator (stats_add stats y ref) = generator stats
   \<and> stats_add stats y ref =
       stats\<lparr> n := n stats + 1, mean := mean (stats_add stats y ref),
              m2 := m2 (stats_add stats y ref) \<rparr>"
  by (simp add: stats_add_welford welford_def spec_delta_def spec_mean_def spec_m2_def)

lemma stats_print_lines:
  "stats_print stats fh =
     fh @ [Header (distribution stats) (generator stats), Samples (n stats), MeanLine (mean stats),
           VarianceLine (if 1 < n stats then mpfr_div_ui MPFR_PREC (m2 stats) (n stats - 1) else MNaN),
           StddevLine (if 1 < n stats
                       then mpfr_sqrt MPFR_PREC (mpfr_div_ui MPFR_PREC (m2 stats) (n stats - 1))
                       else MNaN),
           Blank]"
  by (simp add: stats_print_def MPFR_DECL_INIT_def Let_def)

subsection \<open>Results are well-formed; small integers are exact\<close>

lemma ulp_scale: "x \<noteq> 0 \<Longrightarrow> ulp p (x * 2 powi k) = ulp p x * 2 powi k"
  unfolding ulp_def two_powi_add by (simp add: expo_times_two_powi algebra_simps)

lemma fits_scale:
  assumes "mpfr_fits p x" "x \<noteq> 0"
  shows "mpfr_fits p (x * 2 powi k)"
proof -
  have "(x * 2 powi k) / ulp p (x * 2 powi k) = x / ulp p x"
    using ulp_scale[OF assms(2), of p k] by simp
  then show ?thesis using assms(1) by (simp add: fits_iff_Ints)
qed

lemma fits_of_int:
  assumes "k \<noteq> 0" "\<bar>k\<bar> < 2 ^ p"
  shows "mpfr_fits p (of_int k)"
proof -
  let ?x = "of_int k :: rat"
  have x0: "?x \<noteq> 0" using assms by simp
  have "(2::rat) powi 0 \<le> \<bar>?x\<bar>" using assms(1) by (simp flip: of_int_abs)
  then have e0: "0 \<le> expo ?x" by (rule expo_ge)
  have "\<bar>?x\<bar> < of_int (2 ^ p)" using assms(2) by (simp only: of_int_abs[symmetric] of_int_less_iff)
  then have "\<bar>?x\<bar> < 2 powi (int p)" by simp
  then have ep: "expo ?x < int p" using expo_less_iff[OF x0] by simp
  define j where "j = nat (int p - 1 - expo ?x)"
  have j: "int j = int p - 1 - expo ?x" using ep by (simp add: j_def)
  have "ulp p ?x * 2 powi (int j) = 1"
    unfolding ulp_def two_powi_add j by simp
  then have "?x / ulp p ?x = ?x * 2 powi (int j)"
    using ulp_pos[of p ?x] by (simp add: field_simps)
  also have "\<dots> = of_int (k * 2 ^ j)" by simp
  finally show ?thesis unfolding fits_iff_Ints by (metis Ints_of_int)
qed

lemma expo_of_int_range:
  assumes "k \<noteq> 0" "\<bar>k\<bar> < 2 ^ p"
  shows "0 \<le> expo (of_int k)" "expo (of_int k) < int p"
proof -
  let ?x = "of_int k :: rat"
  have x0: "?x \<noteq> 0" using assms by simp
  have "(2::rat) powi 0 \<le> \<bar>?x\<bar>" using assms(1) by (simp flip: of_int_abs)
  then show "0 \<le> expo ?x" by (rule expo_ge)
  have "\<bar>?x\<bar> < of_int (2 ^ p)" using assms(2) by (simp only: of_int_abs[symmetric] of_int_less_iff)
  then have "\<bar>?x\<bar> < 2 powi (int p)" by simp
  then show "expo ?x < int p" using expo_less_iff[OF x0] by simp
qed

lemma regular_of_int:
  assumes "k \<noteq> 0" "\<bar>k\<bar> < 2 ^ p" "int p \<le> mpfr_emax"
  shows "mpfr_regular p (of_int k)"
  using fits_of_int[OF assms(1,2)] expo_of_int_range[OF assms(1,2)] assms
  by (simp add: mpfr_regular_def mpfr_emin_def mpfr_emax_def)

lemma prec_le_emax: "int MPFR_PREC \<le> mpfr_emax"
  by (simp add: MPFR_PREC_def mpfr_emax_def)

lemma prec_pos: "0 < MPFR_PREC"
  by (simp add: MPFR_PREC_def)

lemma regular_minus: "mpfr_regular p (- x) = mpfr_regular p x"
  by (simp add: mpfr_regular_def fits_minus expo_minus)

lemma regular_double:
  assumes "mpfr_regular p x" "expo x + 1 < mpfr_emax"
  shows "mpfr_regular p (2 * x)"
proof -
  have x0: "x \<noteq> 0" using assms by (simp add: mpfr_regular_def)
  have e: "2 * x = x * 2 powi 1" by simp
  have "expo (2 * x) = expo x + 1" unfolding e using expo_times_two_powi[OF x0, of 1] .
  moreover have "mpfr_fits p (2 * x)" unfolding e using assms x0
    by (intro fits_scale) (simp_all add: mpfr_regular_def)
  ultimately show ?thesis using assms x0 by (simp add: mpfr_regular_def)
qed

lemma wf_round: "0 < p \<Longrightarrow> mpfr_wf p (mpfr_round p x)"
  using mpfr_round_regular[of p x] by (cases "mpfr_round p x") (simp_all add: mpfr_wf_def)

lemma wf_add: "0 < p \<Longrightarrow> mpfr_wf p (mpfr_add p a b)"
  using wf_round[of p] 
  by (cases a; cases b) (simp_all add: mpfr_add_def mpfr_nan_p_def mpfr_inf_p_def mpfr_zero_p_def mpfr_wf_def)

lemma wf_sub: "0 < p \<Longrightarrow> mpfr_wf p (mpfr_sub p a b)"
  unfolding mpfr_sub_def by (rule wf_add)

lemma wf_div: "0 < p \<Longrightarrow> mpfr_wf p (mpfr_div p a b)"
  using wf_round[of p] 
  by (cases a; cases b) (simp_all add: mpfr_div_def mpfr_nan_p_def mpfr_inf_p_def mpfr_zero_p_def mpfr_wf_def Let_def)

lemma wf_div_ui: "0 < p \<Longrightarrow> mpfr_wf p (mpfr_div_ui p a u)"
  using wf_round[of p] 
  by (cases a) (simp_all add: mpfr_div_ui_def mpfr_wf_def)

lemma wf_fma: "0 < p \<Longrightarrow> mpfr_wf p (mpfr_fma p x y z)"
  using wf_round[of p] 
  by (cases x; cases y; cases z)
     (simp_all add: mpfr_fma_def mpfr_nan_p_def mpfr_inf_p_def mpfr_zero_p_def mpfr_wf_def Let_def)

lemma wf_reldiff: "mpfr_wf MPFR_PREC (spec_reldiff y r)"
  unfolding spec_reldiff_def by (rule wf_div[OF prec_pos])

lemma reldiff_regular: "spec_reldiff y r = MFin e \<Longrightarrow> mpfr_regular MPFR_PREC e"
  using wf_reldiff[of y r] by (simp add: mpfr_wf_def)

lemma stats_init_fields:
  "n (stats_init d g) = 0" "mean (stats_init d g) = MZero False" "m2 (stats_init d g) = MZero False"
  "distribution (stats_init d g) = d" "generator (stats_init d g) = g"
  by (simp_all add: stats_init_def mpfr_set_ui_def mpfr_round_zero)

lemma welford_first:
  assumes "mpfr_regular MPFR_PREC e" "mean st = MZero False" "m2 st = MZero False" "n st = 0"
  shows "mean (welford st (MFin e)) = MFin e" "m2 (welford st (MFin e)) = MZero False"
        "n (welford st (MFin e)) = 1"
proof -
  have d: "spec_delta st (MFin e) = MFin e"
    using assms by (simp add: spec_delta_def mpfr_sub_def mpfr_add_def mpfr_negate_def mpfr_nan_p_def
        mpfr_inf_p_def mpfr_zero_p_def mpfr_val_def mpfr_round_exact)
  have m: "spec_mean st (MFin e) = MFin e"
    using assms by (simp add: spec_mean_def d mpfr_div_ui_def mpfr_add_def mpfr_nan_p_def
        mpfr_inf_p_def mpfr_zero_p_def mpfr_val_def mpfr_round_exact)
  show "mean (welford st (MFin e)) = MFin e" using m by (simp add: welford_def)
  have t2: "mpfr_sub MPFR_PREC (MFin e) (MFin e) = MZero False"
    by (simp add: mpfr_sub_def mpfr_add_def mpfr_negate_def mpfr_nan_p_def
        mpfr_inf_p_def mpfr_zero_p_def mpfr_val_def mpfr_round_zero)
  show "m2 (welford st (MFin e)) = MZero False"
    using assms by (simp add: welford_def spec_m2_def d m t2 mpfr_fma_def mpfr_nan_p_def
        mpfr_inf_p_def mpfr_zero_p_def mpfr_signbit_def)
  show "n (welford st (MFin e)) = 1" using assms by (simp add: welford_def)
qed

lemma welford_second_opposite:
  assumes "mpfr_regular MPFR_PREC e" "expo e + 1 < mpfr_emax"
          "mean st = MFin e" "m2 st = MZero False" "n st = 1"
  shows "mean (welford st (MFin (- e))) = MZero False"
        "m2 (welford st (MFin (- e))) = mpfr_round MPFR_PREC (2 * e * e)"
        "n (welford st (MFin (- e))) = 2"
proof -
  have e0: "e \<noteq> 0" using assms by (simp add: mpfr_regular_def)
  have r2: "mpfr_regular MPFR_PREC (- (2 * e))"
    using regular_double[OF assms(1,2)] by (simp only: regular_minus)
  have rm: "mpfr_regular MPFR_PREC (- e)" using assms(1) by (simp only: regular_minus)
  have d: "spec_delta st (MFin (- e)) = MFin (- (2 * e))"
    using assms mpfr_round_exact[OF r2]
    by (simp add: spec_delta_def mpfr_sub_def mpfr_add_def mpfr_negate_def mpfr_nan_p_def
        mpfr_inf_p_def mpfr_zero_p_def mpfr_val_def)
  have t: "mpfr_div_ui MPFR_PREC (MFin (- (2 * e))) 2 = MFin (- e)"
    using mpfr_round_exact[OF rm] by (simp add: mpfr_div_ui_def)
  have m: "spec_mean st (MFin (- e)) = MZero False"
    using assms by (simp add: spec_mean_def d t mpfr_add_def mpfr_nan_p_def
        mpfr_inf_p_def mpfr_zero_p_def mpfr_val_def mpfr_round_zero)
  show "mean (welford st (MFin (- e))) = MZero False" using m by (simp add: welford_def)
  have t2: "mpfr_sub MPFR_PREC (MFin (- e)) (MZero False) = MFin (- e)"
    using mpfr_round_exact[OF rm]
    by (simp add: mpfr_sub_def mpfr_add_def mpfr_negate_def mpfr_nan_p_def
        mpfr_inf_p_def mpfr_zero_p_def mpfr_val_def)
  show "m2 (welford st (MFin (- e))) = mpfr_round MPFR_PREC (2 * e * e)"
    using assms e0 by (simp add: welford_def spec_m2_def d m t2 mpfr_fma_def mpfr_nan_p_def
        mpfr_inf_p_def mpfr_zero_p_def mpfr_val_def)
  show "n (welford st (MFin (- e))) = 2" using assms by (simp add: welford_def)
qed

lemma div_ui_one_wf: "mpfr_wf p a \<Longrightarrow> mpfr_div_ui p a 1 = a"
  by (cases a) (simp_all add: mpfr_div_ui_def mpfr_wf_def mpfr_round_exact)

lemma two_opposite_samples:
  assumes "spec_reldiff y1 r1 = MFin e" "spec_reldiff y2 r2 = MFin (- e)" "expo e + 1 < mpfr_emax"
  shows "mean (stats_add (stats_add (stats_init d g) y1 r1) y2 r2) = MZero False"
    and "n (stats_add (stats_add (stats_init d g) y1 r1) y2 r2) = 2"
    and "m2 (stats_add (stats_add (stats_init d g) y1 r1) y2 r2) = mpfr_round MPFR_PREC (2 * e * e)"
    and "stats_print (stats_add (stats_add (stats_init d g) y1 r1) y2 r2) fh ! (length fh + 3)
           = VarianceLine (mpfr_round MPFR_PREC (2 * e * e))"
proof -
  let ?s1 = "stats_add (stats_init d g) y1 r1"
  let ?s2 = "stats_add ?s1 y2 r2"
  have re: "mpfr_regular MPFR_PREC e" using reldiff_regular[OF assms(1)] .
  have s1: "?s1 = welford (stats_init d g) (MFin e)" by (simp add: stats_add_welford assms)
  have s2: "?s2 = welford ?s1 (MFin (- e))" by (simp add: stats_add_welford assms)
  have f: "mean ?s1 = MFin e" "m2 ?s1 = MZero False" "n ?s1 = 1"
    unfolding s1 by (rule welford_first[OF re]; simp add: stats_init_fields)+
  have g: "mean ?s2 = MZero False" "m2 ?s2 = mpfr_round MPFR_PREC (2 * e * e)" "n ?s2 = 2"
    unfolding s2 by (rule welford_second_opposite[OF re assms(3) f])+
  show "mean ?s2 = MZero False" "n ?s2 = 2" "m2 ?s2 = mpfr_round MPFR_PREC (2 * e * e)"
    using g by simp_all
  have "mpfr_div_ui MPFR_PREC (m2 ?s2) 1 = m2 ?s2"
    unfolding g(2) by (rule div_ui_one_wf[OF wf_round[OF prec_pos]])
  then show "stats_print ?s2 fh ! (length fh + 3) = VarianceLine (mpfr_round MPFR_PREC (2 * e * e))"
    using g by (simp add: stats_print_lines nth_append)
qed

lemma mpfr_round_int:
  "k \<noteq> 0 \<Longrightarrow> \<bar>k\<bar> < 2 ^ 512 \<Longrightarrow> mpfr_round MPFR_PREC (of_int k) = MFin (of_int k)"
  using regular_of_int[of k MPFR_PREC] prec_le_emax
  by (intro mpfr_round_exact) (simp add: MPFR_PREC_def)

lemmas mpfr_round_small =
  mpfr_round_int[of 1, simplified] mpfr_round_int[of 2, simplified]
  mpfr_round_int[of "-1", simplified] mpfr_round_int[of "-2", simplified]

lemma reldiff_2_1: "spec_reldiff (MFin 2) (MFin 1) = MFin 1"
  by (simp add: spec_reldiff_def mpfr_sub_def mpfr_add_def mpfr_negate_def mpfr_abs_def mpfr_div_def
      mpfr_nan_p_def mpfr_inf_p_def mpfr_zero_p_def mpfr_val_def mpfr_round_small)

lemma reldiff_0_1: "spec_reldiff (MZero False) (MFin 1) = MFin (- 1)"
  by (simp add: spec_reldiff_def mpfr_sub_def mpfr_add_def mpfr_negate_def mpfr_abs_def mpfr_div_def
      mpfr_nan_p_def mpfr_inf_p_def mpfr_zero_p_def mpfr_val_def mpfr_round_small)

lemma expo_one: "expo 1 = 0"
  using expo_two_powi[of 0] by simp

lemma one_below_emax: "expo 1 + 1 < mpfr_emax"
  by (simp add: expo_one mpfr_emax_def)

lemma mpfr_round_in_range:
  assumes "x \<noteq> 0" "mpfr_emin \<le> expo x + 1" "0 < p"
  shows "mpfr_round p x = MInf (x < 0) \<or> mpfr_round p x = MFin (rnd p x)"
  using expo_rnd_ge[OF assms(1,3)] assms by (auto simp: mpfr_round_def Let_def)

lemma equal_inputs_first:
  assumes "x \<noteq> 0" "mpfr_emin \<le> expo x + 1"
  shows "mean (stats_add (stats_init d g) (MFin x) (MFin x)) = MZero False"
proof -
  have a0: "\<bar>x\<bar> \<noteq> 0" "mpfr_emin \<le> expo \<bar>x\<bar> + 1" using assms by (simp_all add: expo_abs)
  have "0 < rnd MPFR_PREC \<bar>x\<bar>" using assms prec_pos by (intro rnd_pos) simp_all
  then have ab: "mpfr_abs MPFR_PREC (MFin x) = MInf False
      \<or> (\<exists>r. 0 < r \<and> mpfr_abs MPFR_PREC (MFin x) = MFin r)"
    using mpfr_round_in_range[OF a0 prec_pos] by (auto simp: mpfr_abs_def)
  have diff: "mpfr_sub MPFR_PREC (MFin x) (MFin x) = MZero False"
    by (simp add: mpfr_sub_def mpfr_add_def mpfr_negate_def mpfr_nan_p_def
        mpfr_inf_p_def mpfr_zero_p_def mpfr_val_def mpfr_round_zero)
  have rd: "spec_reldiff (MFin x) (MFin x) = MZero False"
    using ab by (auto simp: spec_reldiff_def diff mpfr_div_def mpfr_nan_p_def
        mpfr_inf_p_def mpfr_zero_p_def mpfr_signbit_def)
  show ?thesis
    by (simp add: stats_add_welford rd welford_def spec_mean_def spec_delta_def stats_init_fields
        mpfr_sub_def mpfr_add_def mpfr_negate_def mpfr_div_ui_def mpfr_nan_p_def
        mpfr_inf_p_def mpfr_zero_p_def mpfr_signbit_def)
qed

lemma n_first: "n (stats_add (stats_init d g) y r) = 1"
  by (simp add: stats_add_welford welford_def stats_init_fields)

subsection \<open>Values that are not numbers propagate\<close>

lemma nonnum_add: "\<not> mpfr_number_p a \<or> \<not> mpfr_number_p b \<Longrightarrow> \<not> mpfr_number_p (mpfr_add p a b)"
  by (cases a; cases b)
     (auto simp: mpfr_add_def mpfr_number_p_def mpfr_nan_p_def mpfr_inf_p_def mpfr_zero_p_def
        mpfr_signbit_def)

lemma nonnum_negate: "mpfr_number_p (mpfr_negate a) = mpfr_number_p a"
  by (cases a) (simp_all add: mpfr_negate_def mpfr_number_p_def)

lemma nonnum_sub: "\<not> mpfr_number_p a \<or> \<not> mpfr_number_p b \<Longrightarrow> \<not> mpfr_number_p (mpfr_sub p a b)"
  unfolding mpfr_sub_def by (rule nonnum_add) (simp add: nonnum_negate)

lemma nonnum_div_ui: "\<not> mpfr_number_p a \<Longrightarrow> \<not> mpfr_number_p (mpfr_div_ui p a u)"
  by (cases a) (simp_all add: mpfr_div_ui_def mpfr_number_p_def)

lemma nonnum_fma:
  "\<not> mpfr_number_p x \<Longrightarrow> \<not> mpfr_number_p y \<Longrightarrow> \<not> mpfr_number_p (mpfr_fma p x y z)"
  by (cases x; cases y)
     (auto simp: mpfr_fma_def mpfr_number_p_def mpfr_nan_p_def mpfr_inf_p_def mpfr_zero_p_def Let_def)

lemma nonnum_div_zero: "\<not> mpfr_number_p (mpfr_div p a (MZero s))"
  by (cases a)
     (auto simp: mpfr_div_def mpfr_number_p_def mpfr_nan_p_def mpfr_inf_p_def mpfr_zero_p_def Let_def)

lemma reldiff_zero_ref: "\<not> mpfr_number_p (spec_reldiff y (MZero s))"
  by (simp add: spec_reldiff_def mpfr_abs_def nonnum_div_zero)

lemma welford_poison:
  assumes "\<not> mpfr_number_p r \<or> \<not> mpfr_number_p (mean st)"
  shows "\<not> mpfr_number_p (mean (welford st r))" and "\<not> mpfr_number_p (m2 (welford st r))"
proof -
  have d: "\<not> mpfr_number_p (spec_delta st r)"
    unfolding spec_delta_def using assms by (rule nonnum_sub)
  then have t: "\<not> mpfr_number_p (mpfr_div_ui MPFR_PREC (spec_delta st r) (n st + 1))"
    by (rule nonnum_div_ui)
  then have m: "\<not> mpfr_number_p (spec_mean st r)"
    unfolding spec_mean_def by (intro nonnum_add) simp
  then have t2: "\<not> mpfr_number_p (mpfr_sub MPFR_PREC r (spec_mean st r))"
    by (intro nonnum_sub) simp
  show "\<not> mpfr_number_p (mean (welford st r))" using m by (simp add: welford_def)
  show "\<not> mpfr_number_p (m2 (welford st r))"
    using nonnum_fma[OF d t2] by (simp add: welford_def spec_m2_def)
qed

lemma stats_add_all_poison:
  "\<not> mpfr_number_p (mean st) \<Longrightarrow> \<not> mpfr_number_p (m2 st) \<Longrightarrow>
   \<not> mpfr_number_p (mean (stats_add_all st calls)) \<and> \<not> mpfr_number_p (m2 (stats_add_all st calls))"
proof (induction calls arbitrary: st)
  case Nil
  then show ?case by (simp add: stats_add_all_def)
next
  case (Cons c calls)
  obtain y r where c: "c = (y, r)" by (cases c)
  have "stats_add_all st (c # calls) = stats_add_all (stats_add st y r) calls"
    by (simp add: stats_add_all_def c)
  moreover have "\<not> mpfr_number_p (mean (stats_add st y r))" "\<not> mpfr_number_p (m2 (stats_add st y r))"
    using welford_poison[of "spec_reldiff y r" st] Cons.prems(1) by (simp_all add: stats_add_welford)
  ultimately show ?case using Cons.IH by simp
qed

text \<open>
  Claim C3, as amended. \<open>stats_print\<close> only reads the cell. It prints the count and the mean,
  then the variance \<open>m2 / (n - 1)\<close> and its square root when \<open>n > 1\<close>. When \<open>n \<le> 1\<close> it prints
  NaN for both: the two are fresh local variables, which \<open>MPFR_DECL_INIT\<close> has set to NaN,
  and nothing of an earlier report reaches them.
\<close>

theorem stats_print_report:
  "stats_print stats fh =
     fh @ [Header (distribution stats) (generator stats), Samples (n stats), MeanLine (mean stats),
           VarianceLine (if 1 < n stats then mpfr_div_ui MPFR_PREC (m2 stats) (n stats - 1) else MNaN),
           StddevLine (if 1 < n stats
                       then mpfr_sqrt MPFR_PREC (mpfr_div_ui MPFR_PREC (m2 stats) (n stats - 1))
                       else MNaN),
           Blank]"
  by (rule stats_print_lines)

text \<open>
  The claim as it was worded ("left at their last computed value") fails: a report of a
  cell with two samples, then a report of a cell with one sample. The second report shows
  NaN, not the variance 2 that the first one computed.
\<close>

theorem stats_print_stale_counterexample:
  "stats_print \<lparr> distribution = ''all floats'', generator = ''float'', n = 1,
                  mean = MFin 1, m2 = MZero False \<rparr>
     (stats_print \<lparr> distribution = ''all floats'', generator = ''double'', n = 2,
                     mean = MZero False, m2 = MFin 2 \<rparr> [])
   = [Header ''all floats'' ''double'', Samples 2, MeanLine (MZero False),
      VarianceLine (MFin 2), StddevLine (mpfr_sqrt MPFR_PREC (MFin 2)), Blank,
      Header ''all floats'' ''float'', Samples 1, MeanLine (MFin 1),
      VarianceLine MNaN, StddevLine MNaN, Blank]"
  by (simp add: stats_print_lines mpfr_div_ui_def mpfr_round_small)

subsection \<open>The claims about \<open>record\<close>\<close>

text \<open>
  Claim C4. When the reference is a zero, the relative error \<open>(y - ref) / |ref|\<close> is an
  infinity or NaN whatever \<open>y\<close> is; nothing tests for it; after the call the mean and
  \<open>m2\<close> of the cell are not numbers, and they stay so after any further calls.
\<close>

theorem zero_reference_poisons:
  "\<not> mpfr_number_p (spec_reldiff y (MZero s))
   \<and> \<not> mpfr_number_p (mean (stats_add stats y (MZero s)))
   \<and> \<not> mpfr_number_p (m2 (stats_add stats y (MZero s)))
   \<and> \<not> mpfr_number_p (mean (stats_add_all (stats_add stats y (MZero s)) calls))
   \<and> \<not> mpfr_number_p (m2 (stats_add_all (stats_add stats y (MZero s)) calls))"
proof -
  have r: "\<not> mpfr_number_p (spec_reldiff y (MZero s))" by (rule reldiff_zero_ref)
  have a: "\<not> mpfr_number_p (mean (stats_add stats y (MZero s)))"
          "\<not> mpfr_number_p (m2 (stats_add stats y (MZero s)))"
    using welford_poison[of "spec_reldiff y (MZero s)" stats] r by (simp_all add: stats_add_welford)
  show ?thesis using r a stats_add_all_poison[OF a] by simp
qed

text \<open>
  Claim C8, as amended. One call on a fresh cell with the observed value equal to the
  reference leaves \<open>n = 1\<close>, and the mean \<open>+0\<close> when the common value is a non-zero number
  whose exponent is not below MPFR's minimum.
\<close>

theorem first_sample_equal_inputs:
  "x \<noteq> 0 \<Longrightarrow> mpfr_emin \<le> expo x + 1 \<Longrightarrow>
   mean (stats_add (stats_init d g) (MFin x) (MFin x)) = MZero False
   \<and> n (stats_add (stats_init d g) (MFin x) (MFin x)) = 1"
  by (simp add: equal_inputs_first n_first)

theorem first_sample_equal_inputs_witness:
  "(1::rat) \<noteq> 0 \<and> mpfr_emin \<le> expo 1 + 1
   \<and> mean (stats_add (stats_init ''all floats'' ''float'') (MFin 1) (MFin 1)) = MZero False
   \<and> n (stats_add (stats_init ''all floats'' ''float'') (MFin 1) (MFin 1)) = 1"
  using first_sample_equal_inputs[of 1 "''all floats''" "''float''"]
  by (simp add: expo_one mpfr_emin_def)

text \<open>
  The claim as worded ("for every such pair of equal input values") fails when both values
  are zero, which is what every evaluator and the reference return for the sample 0:
  the relative error is \<open>0/0\<close> and the mean becomes NaN.
\<close>

theorem first_sample_zero_counterexample:
  "mean (stats_add (stats_init ''all floats'' ''float'') (MZero False) (MZero False)) = MNaN"
  by (simp add: stats_add_welford welford_def spec_mean_def spec_delta_def stats_init_fields
        spec_reldiff_def mpfr_abs_def mpfr_div_def
        mpfr_sub_def mpfr_add_def mpfr_negate_def mpfr_div_ui_def mpfr_nan_p_def
        mpfr_inf_p_def mpfr_zero_p_def mpfr_signbit_def)

text \<open>
  Claim C2, as amended. On a fresh cell, two calls whose relative errors are \<open>e\<close> and
  \<open>-e\<close>, where \<open>e\<close> is a non-zero number and \<open>2e\<close> does not overflow, leave the mean at
  \<open>+0\<close> and \<open>n = 2\<close>; the variance that \<open>stats_print\<close> then reports (divisor \<open>n - 1 = 1\<close>)
  is \<open>2 e\<^sup>2\<close> rounded to 512 bits, not \<open>e\<^sup>2\<close>.
\<close>

theorem two_opposite_errors:
  "spec_reldiff y1 r1 = MFin e \<Longrightarrow> spec_reldiff y2 r2 = MFin (- e) \<Longrightarrow> expo e + 1 < mpfr_emax \<Longrightarrow>
   mean (stats_add (stats_add (stats_init d g) y1 r1) y2 r2) = MZero False
   \<and> n (stats_add (stats_add (stats_init d g) y1 r1) y2 r2) = 2
   \<and> stats_print (stats_add (stats_add (stats_init d g) y1 r1) y2 r2) fh ! (length fh + 3)
       = VarianceLine (mpfr_round MPFR_PREC (2 * e * e))"
  by (simp add: two_opposite_samples)

theorem two_opposite_errors_witness:
  "spec_reldiff (MFin 2) (MFin 1) = MFin 1
   \<and> spec_reldiff (MZero False) (MFin 1) = MFin (- 1)
   \<and> expo 1 + 1 < mpfr_emax
   \<and> mean (stats_add (stats_add (stats_init ''all floats'' ''float'') (MFin 2) (MFin 1))
              (MZero False) (MFin 1)) = MZero False
   \<and> n (stats_add (stats_add (stats_init ''all floats'' ''float'') (MFin 2) (MFin 1))
              (MZero False) (MFin 1)) = 2
   \<and> stats_print (stats_add (stats_add (stats_init ''all floats'' ''float'') (MFin 2) (MFin 1))
              (MZero False) (MFin 1)) [] ! 3 = VarianceLine (mpfr_round MPFR_PREC 2)"
  using two_opposite_errors[OF reldiff_2_1 reldiff_0_1 one_below_emax,
          of "''all floats''" "''float''" "[]"]
  by (simp add: reldiff_2_1 reldiff_0_1 one_below_emax)

text \<open>
  The claim as worded (variance \<open>e\<^sup>2\<close>) fails at \<open>e = 1\<close>: the observed values 2 and 0
  against the reference 1 have relative errors \<open>1\<close> and \<open>-1\<close>, and the reported variance is 2.
\<close>

theorem two_opposite_errors_counterexample:
  "spec_reldiff (MFin 2) (MFin 1) = MFin 1
   \<and> spec_reldiff (MZero False) (MFin 1) = MFin (- 1)
   \<and> stats_print (stats_add (stats_add (stats_init ''all floats'' ''float'') (MFin 2) (MFin 1))
                     (MZero False) (MFin 1)) [] ! 3 = VarianceLine (MFin 2)"
  using two_opposite_samples(4)[OF reldiff_2_1 reldiff_0_1 one_below_emax, of "''all floats''" "''float''" "[]"]
  by (simp add: reldiff_2_1 reldiff_0_1 mpfr_round_small)

section \<open>Facts about \<open>\<pi>\<close>, floats and the distributions\<close>

subsection \<open>Bounds on \<open>\<pi>/2\<close> from the Taylor expansion of the cosine\<close>

lemma cos_taylor16:
  assumes "0 < x"
  shows "\<bar>cos x - (\<Sum>m<16. cos_coeff m * x ^ m)\<bar> \<le> x ^ 16 / fact 16"
proof -
  obtain t where t: "cos x = (\<Sum>m<16. cos_coeff m * x ^ m) + (cos (t + 1/2 * real 16 * pi) / fact 16) * x ^ 16"
    using Maclaurin_cos_expansion2[OF assms, of 16] by auto
  have "\<bar>cos (t + 1/2 * real 16 * pi)\<bar> \<le> 1" by (rule abs_cos_le_one)
  then have "\<bar>(cos (t + 1/2 * real 16 * pi) / fact 16) * x ^ 16\<bar> \<le> 1 / fact 16 * x ^ 16"
    using assms by (simp add: abs_mult divide_right_mono mult_right_mono del: of_nat_numeral)
  then show ?thesis using t by simp
qed

lemma cos_poly16:
  "(\<Sum>m<16. cos_coeff m * x ^ m) =
     1 - x^2/2 + x^4/24 - x^6/720 + x^8/40320 - x^10/3628800 + x^12/479001600 - x^14/87178291200"
  by (simp add: lessThan_nat_numeral lessThan_Suc cos_coeff_def fact_numeral)

lemma fact16: "(fact 16 :: real) = 20922789888000"
  by (simp add: fact_numeral)

lemma cos_pos_below: "0 < cos (26353589 / 16777216 :: real)"
proof -
  define x :: real where "x = 26353589 / 16777216"
  have x0: "0 < x" by (simp add: x_def)
  have x2: "x\<^sup>2 = 694511653180921 / 281474976710656" by (simp add: x_def power2_eq_square)
  have e4: "x ^ 4 = (694511653180921 / 281474976710656) * x\<^sup>2"
  proof -
    have "x ^ 4 = x\<^sup>2 * x\<^sup>2" by (simp flip: power_add)
    then show ?thesis by (simp only: x2)
  qed
  have b4: "6088067943229828637 / 1000000000000000000 \<le> x ^ 4 \<and> x ^ 4 \<le> 3044033971614914319 / 500000000000000000"
    unfolding e4 x2 by simp
  have e6: "x ^ 6 = (694511653180921 / 281474976710656) * x ^ 4"
  proof -
    have "x ^ 6 = x\<^sup>2 * x ^ 4" by (simp flip: power_add)
    then show ?thesis by (simp only: x2)
  qed
  have b6: "15021705237680001893 / 1000000000000000000 \<le> x ^ 6 \<and> x ^ 6 \<le> 1877713154710000237 / 125000000000000000"
    using b4 unfolding e6 by simp
  have e8: "x ^ 8 = (694511653180921 / 281474976710656) * x ^ 6"
  proof -
    have "x ^ 8 = x\<^sup>2 * x ^ 6" by (simp flip: power_add)
    then show ?thesis by (simp only: x2)
  qed
  have b8: "18532285640691337983 / 500000000000000000 \<le> x ^ 8 \<and> x ^ 8 \<le> 1482582851255307039 / 40000000000000000"
    using b6 unfolding e8 by simp
  have e10: "x ^ 10 = (694511653180921 / 281474976710656) * x ^ 8"
  proof -
    have "x ^ 10 = x\<^sup>2 * x ^ 8" by (simp flip: power_add)
    then show ?thesis by (simp only: x2)
  qed
  have b10: "91453162110167233263 / 1000000000000000000 \<le> x ^ 10 \<and> x ^ 10 \<le> 91453162110167233287 / 1000000000000000000"
    using b8 unfolding e10 by simp
  have e12: "x ^ 12 = (694511653180921 / 281474976710656) * x ^ 10"
  proof -
    have "x ^ 12 = x\<^sup>2 * x ^ 10" by (simp flip: power_add)
    then show ?thesis by (simp only: x2)
  qed
  have b12: "11282581412387140109 / 50000000000000000 \<le> x ^ 12 \<and> x ^ 12 \<le> 225651628247742802241 / 1000000000000000000"
    using b10 unfolding e12 by simp
  have e14: "x ^ 14 = (694511653180921 / 281474976710656) * x ^ 12"
  proof -
    have "x ^ 14 = x\<^sup>2 * x ^ 12" by (simp flip: power_add)
    then show ?thesis by (simp only: x2)
  qed
  have b14: "278386532274954961421 / 500000000000000000 \<le> x ^ 14 \<and> x ^ 14 \<le> 278386532274954961497 / 500000000000000000"
    using b12 unfolding e14 by simp
  have e16: "x ^ 16 = (694511653180921 / 281474976710656) * x ^ 14"
  proof -
    have "x ^ 16 = x\<^sup>2 * x ^ 14" by (simp flip: power_add)
    then show ?thesis by (simp only: x2)
  qed
  have b16: "68689122213634871117 / 50000000000000000 \<le> x ^ 16 \<and> x ^ 16 \<le> 343445611068174355679 / 250000000000000000"
    using b14 unfolding e16 by simp
  have "\<bar>cos x - (\<Sum>m<16. cos_coeff m * x ^ m)\<bar> \<le> x ^ 16 / fact 16"
    using x0 by (rule cos_taylor16)
  then have "1 - x\<^sup>2/2 + x^4/24 - x^6/720 + x^8/40320 - x^10/3628800 + x^12/479001600 - x^14/87178291200 - x ^ 16 / 20922789888000 \<le> cos x"
    unfolding cos_poly16 fact16 by linarith
  moreover have "0 < 1 - x\<^sup>2/2 + x^4/24 - x^6/720 + x^8/40320 - x^10/3628800 + x^12/479001600 - x^14/87178291200 - x ^ 16 / 20922789888000"
    using x2 b4 b6 b8 b10 b12 b14 b16 by linarith
  ultimately have "0 < cos x" by linarith
  then show ?thesis by (simp only: x_def)
qed

lemma cos_neg_above: "cos (26353591 / 16777216 :: real) < 0"
proof -
  define x :: real where "x = 26353591 / 16777216"
  have x0: "0 < x" by (simp add: x_def)
  have x2: "x\<^sup>2 = 694511758595281 / 281474976710656" by (simp add: x_def power2_eq_square)
  have e4: "x ^ 4 = (694511758595281 / 281474976710656) * x\<^sup>2"
  proof -
    have "x ^ 4 = x\<^sup>2 * x\<^sup>2" by (simp flip: power_add)
    then show ?thesis by (simp only: x2)
  qed
  have b4: "304403489567404513 / 50000000000000000 \<le> x ^ 4 \<and> x ^ 4 \<le> 6088069791348090261 / 1000000000000000000"
    unfolding e4 x2 by simp
  have e6: "x ^ 6 = (694511758595281 / 281474976710656) * x ^ 4"
  proof -
    have "x ^ 6 = x\<^sup>2 * x ^ 4" by (simp flip: power_add)
    then show ?thesis by (simp only: x2)
  qed
  have b6: "751085603887696541 / 50000000000000000 \<le> x ^ 6 \<and> x ^ 6 \<le> 15021712077753930823 / 1000000000000000000"
    using b4 unfolding e6 by simp
  have e8: "x ^ 8 = (694511758595281 / 281474976710656) * x ^ 6"
  proof -
    have "x ^ 8 = x\<^sup>2 * x ^ 6" by (simp flip: power_add)
    then show ?thesis by (simp only: x2)
  qed
  have b8: "37064593784325179273 / 1000000000000000000 \<le> x ^ 8 \<and> x ^ 8 \<le> 37064593784325179281 / 1000000000000000000"
    using b6 unfolding e8 by simp
  have e10: "x ^ 10 = (694511758595281 / 281474976710656) * x ^ 8"
  proof -
    have "x ^ 10 = x\<^sup>2 * x ^ 8" by (simp flip: power_add)
    then show ?thesis by (simp only: x2)
  qed
  have b10: "45726615757451230509 / 500000000000000000 \<le> x ^ 10 \<and> x ^ 10 \<le> 91453231514902461039 / 1000000000000000000"
    using b8 unfolding e10 by simp
  have e12: "x ^ 12 = (694511758595281 / 281474976710656) * x ^ 10"
  proof -
    have "x ^ 12 = x\<^sup>2 * x ^ 10" by (simp flip: power_add)
    then show ?thesis by (simp only: x2)
  qed
  have b12: "112825916873469158669 / 500000000000000000 \<le> x ^ 12 \<and> x ^ 12 \<le> 225651833746938317391 / 1000000000000000000"
    using b10 unfolding e12 by simp
  have e14: "x ^ 14 = (694511758595281 / 281474976710656) * x ^ 12"
  proof -
    have "x ^ 14 = x\<^sup>2 * x ^ 12" by (simp flip: power_add)
    then show ?thesis by (simp only: x2)
  qed
  have b14: "139193414026760204593 / 250000000000000000 \<le> x ^ 14 \<and> x ^ 14 \<le> 556773656107040818503 / 1000000000000000000"
    using b12 unfolding e14 by simp
  have e16: "x ^ 16 = (694511758595281 / 281474976710656) * x ^ 14"
  proof -
    have "x ^ 16 = x\<^sup>2 * x ^ 14" by (simp flip: power_add)
    then show ?thesis by (simp only: x2)
  qed
  have b16: "171723014049629589251 / 125000000000000000 \<le> x ^ 16 \<and> x ^ 16 \<le> 343446028099259178583 / 250000000000000000"
    using b14 unfolding e16 by simp
  have "\<bar>cos x - (\<Sum>m<16. cos_coeff m * x ^ m)\<bar> \<le> x ^ 16 / fact 16"
    using x0 by (rule cos_taylor16)
  then have "cos x \<le> 1 - x\<^sup>2/2 + x^4/24 - x^6/720 + x^8/40320 - x^10/3628800 + x^12/479001600 - x^14/87178291200 + x ^ 16 / 20922789888000"
    unfolding cos_poly16 fact16 by linarith
  moreover have "1 - x\<^sup>2/2 + x^4/24 - x^6/720 + x^8/40320 - x^10/3628800 + x^12/479001600 - x^14/87178291200 + x ^ 16 / 20922789888000 < 0"
    using x2 b4 b6 b8 b10 b12 b14 b16 by linarith
  ultimately have "cos x < 0" by linarith
  then show ?thesis by (simp only: x_def)
qed

lemma pi_half_lower: "26353589 / 16777216 < pi / 2"
proof (rule ccontr)
  let ?a = "26353589 / 16777216 :: real"
  assume "\<not> ?a < pi / 2"
  then have "pi / 2 \<le> ?a" by simp
  moreover have "?a \<le> pi" using pi_ge_two by simp
  ultimately have "cos ?a \<le> cos (pi / 2)"
    using cos_mono_le_eq[of ?a "pi / 2"] by simp
  then show False using cos_pos_below by simp
qed

lemma pi_half_upper: "pi / 2 < 26353591 / 16777216"
proof (rule ccontr)
  let ?b = "26353591 / 16777216 :: real"
  assume "\<not> pi / 2 < ?b"
  then have "?b \<le> pi / 2" by simp
  then have "0 \<le> cos ?b" by (intro cos_ge_zero) simp_all
  then show False using cos_neg_above by simp
qed

lemma round_pi: "round (2 ^ 23 * pi / 2) = 13176795"
proof -
  have "13176795 \<le> 2 ^ 23 * pi / 2 + 1/2" using pi_half_lower by simp
  moreover have "2 ^ 23 * pi / 2 + 1/2 < 13176796" using pi_half_upper by simp
  ultimately show ?thesis unfolding round_def by (intro floor_unique) simp_all
qed

subsection \<open>Floats\<close>




lemma unat_word_of_nat32: "r < 2 ^ 32 \<Longrightarrow> unat (word_of_nat r :: 32 word) = r"
  by (simp add: unat_of_nat)


lemma flt_round_normal:
  assumes "0 < x" "mpfr_fits 24 x" "- 126 \<le> expo x" "expo x \<le> 127"
  shows "flt_val (flt_round x) = x" and "flt_finite (flt_round x)" and "\<not> flt_sign (flt_round x)"
proof -
  have x0: "x \<noteq> 0" using assms by simp
  define K where "K = \<lfloor>x / ulp 24 x\<rfloor>"
  have q: "x / ulp 24 x = of_int K" using assms(2) unfolding mpfr_fits_def K_def by (rule sym)
  have u: "ulp 24 x = 2 powi (expo x - 23)" by (simp add: ulp_def)
  have xK: "x = of_int K * 2 powi (expo x - 23)"
    using q ulp_pos[of 24 x] unfolding u by (simp add: field_simps)
  have "2 powi (int 24 - 1) \<le> \<bar>x\<bar> / ulp 24 x" "\<bar>x\<bar> / ulp 24 x < 2 powi (int 24)"
    using scaled_bounds[OF x0, of 24] by simp_all
  then have "(of_int (2 ^ 23) :: rat) \<le> of_int K" "(of_int K :: rat) < of_int (2 ^ 24)"
    using assms(1) q by simp_all
  then have K: "2 ^ 23 \<le> K" "K < 2 ^ 24" by (simp_all only: of_int_le_iff of_int_less_iff)
  define E where "E = nat (expo x + 127)"
  define F where "F = nat (K - 2 ^ 23)"
  have E: "1 \<le> E" "E \<le> 254" "int E = expo x + 127" using assms by (simp_all add: E_def)
  have F: "F < 2 ^ 23" "int F = K - 2 ^ 23" using K by (simp_all add: F_def)
  have re: "round_even (\<bar>x\<bar> / 2 powi (expo x - 23)) = K"
    using assms(1) q round_even_of_int[of K] unfolding u by simp
  have "(expo x + 126) * 2 ^ 23 + K = int (E * 2 ^ 23 + F)" using E F by simp
  then have bits: "nat ((expo x + 126) * 2 ^ 23 + K) = E * 2 ^ 23 + F" by simp
  have small: "E * 2 ^ 23 + F < 0x7F800000" using E F by simp
  have m: "max (expo x) (- 126) = expo x" using assms(3) by simp
  have fr: "flt_round x = word_of_nat (E * 2 ^ 23 + F)"
    unfolding flt_round_def Let_def m re bits using x0 assms(1) small by simp
  have un: "unat (flt_round x) = E * 2 ^ 23 + F"
    unfolding fr using small by (intro unat_word_of_nat32) simp
  have ex: "flt_exponent (flt_round x) = E" using E F by (simp add: flt_exponent_def un)
  have fc: "flt_fraction (flt_round x) = F" using F by (simp add: flt_fraction_def un)
  show sg: "\<not> flt_sign (flt_round x)" using small by (simp add: flt_sign_def un)
  show "flt_finite (flt_round x)" using E by (simp add: flt_finite_def ex)
  have "of_nat (2 ^ 23 + F) = (of_int K :: rat)" using F(2) by (metis add.commute diff_add_cancel of_int_of_nat_eq of_nat_add of_nat_numeral of_nat_power)
  moreover have "int E - 150 = expo x - 23" using E by simp
  ultimately show "flt_val (flt_round x) = x"
    using E xK by (simp add: flt_val_def sg ex fc)
qed

lemma flt_round_scaled_nat:
  assumes "0 < m" "m < 2 ^ 24" "- 126 \<le> k" "k \<le> 104"
  shows "flt_val (flt_round (of_nat m * 2 powi k)) = of_nat m * 2 powi k"
    and "flt_finite (flt_round (of_nat m * 2 powi k))"
    and "\<not> flt_sign (flt_round (of_nat m * 2 powi k))"
proof -
  let ?x = "of_nat m * 2 powi k :: rat"
  have mi: "(of_nat m :: rat) = of_int (int m)" by simp
  have m0: "int m \<noteq> 0" "\<bar>int m\<bar> < 2 ^ 24" using assms by simp_all
  have fit: "mpfr_fits 24 ?x"
    unfolding mi using fits_of_int[OF m0] m0 by (intro fits_scale) simp_all
  have ex: "expo ?x = expo (of_int (int m)) + k"
    unfolding mi using m0 by (intro expo_times_two_powi) simp
  have rg: "0 \<le> expo (of_int (int m))" "expo (of_int (int m)) < 24"
    using expo_of_int_range[OF m0] by simp_all
  have pos: "0 < ?x" using assms by simp
  show "flt_val (flt_round ?x) = ?x" "flt_finite (flt_round ?x)" "\<not> flt_sign (flt_round ?x)"
    using flt_round_normal[OF pos fit] ex rg assms by simp_all
qed

lemma flt_of_ulong_exact:
  assumes "i < 2 ^ 24"
  shows "flt_val (flt_of_ulong i) = of_nat i" and "flt_finite (flt_of_ulong i)"
proof -
  have z: "flt_round 0 = 0" by (simp add: flt_round_def)
  have "flt_val (flt_of_ulong i) = of_nat i \<and> flt_finite (flt_of_ulong i)"
  proof (cases "i = 0")
    case True
    then show ?thesis
      by (simp add: flt_of_ulong_def z flt_val_def flt_finite_def flt_exponent_def flt_fraction_def)
  next
    case False
    then show ?thesis using flt_round_scaled_nat[of i 0] assms by (simp add: flt_of_ulong_def)
  qed
  then show "flt_val (flt_of_ulong i) = of_nat i" and "flt_finite (flt_of_ulong i)" by simp_all
qed

lemma flt_sign_of_ulong: "i < 2 ^ 24 \<Longrightarrow> \<not> flt_sign (flt_of_ulong i)"
proof -
  assume a: "i < 2 ^ 24"
  have "flt_val (flt_of_ulong i) = of_nat i" using flt_of_ulong_exact(1)[OF a] .
  then have "0 \<le> flt_val (flt_of_ulong i)" by simp
  show ?thesis
  proof
    assume s: "flt_sign (flt_of_ulong i)"
    then have "flt_val (flt_of_ulong i) \<le> 0" by (simp add: flt_val_def)
    then have "i = 0" using \<open>flt_val (flt_of_ulong i) = of_nat i\<close> by simp
    then show False using s by (simp add: flt_of_ulong_def flt_round_def flt_sign_def)
  qed
qed

lemma getrandom_2_value:
  fixes state :: gmp_randstate_t
  defines "i \<equiv> fst (gmp_urandomm_ui state (unat gt_pid2_ls23_int))"
  shows "i < 13176795"
    and "fst (getrandom_2 state) = flt_div (flt_of_ulong i) (flt_of_ulong (2 ^ 23))"
    and "flt_val (fst (getrandom_2 state)) = of_nat i / 2 ^ 23"
    and "flt_finite (fst (getrandom_2 state))"
    and "\<not> flt_sign (fst (getrandom_2 state))"
proof -
  show i: "i < 13176795" by (simp add: i_def gmp_urandomm_ui_def gt_pid2_ls23_int_def)
  show g: "fst (getrandom_2 state) = flt_div (flt_of_ulong i) (flt_of_ulong (2 ^ 23))"
    by (simp add: getrandom_2_def i_def Let_def split_beta)
  have i24: "i < 2 ^ 24" using i by simp
  note a = flt_of_ulong_exact[OF i24] flt_sign_of_ulong[OF i24]
  have d24: "(2 ^ 23 :: nat) < 2 ^ 24" by simp
  note b = flt_of_ulong_exact[OF d24] flt_sign_of_ulong[OF d24]
  have "flt_val (fst (getrandom_2 state)) = of_nat i / 2 ^ 23 \<and> flt_finite (fst (getrandom_2 state))
        \<and> \<not> flt_sign (fst (getrandom_2 state))"
  proof (cases "i = 0")
    case True
    then have "flt_div (flt_of_ulong i) (flt_of_ulong (2 ^ 23)) = 0"
      using a b by (simp add: flt_div_def Let_def)
    then show ?thesis using True
      by (simp add: g flt_val_def flt_finite_def flt_exponent_def flt_fraction_def flt_sign_def)
  next
    case False
    have e: "(of_nat i :: rat) / 2 ^ 23 = of_nat i * 2 powi (- 23)"
      by (simp add: power_int_minus field_simps)
    have "flt_div (flt_of_ulong i) (flt_of_ulong (2 ^ 23)) = flt_round (of_nat i / 2 ^ 23)"
      using a b False by (simp add: flt_div_def Let_def)
    then show ?thesis unfolding g e using flt_round_scaled_nat[of i "- 23"] False i24 by simp
  qed
  then show "flt_val (fst (getrandom_2 state)) = of_nat i / 2 ^ 23"
    and "flt_finite (fst (getrandom_2 state))"
    and "\<not> flt_sign (fst (getrandom_2 state))" by simp_all
qed


subsection \<open>The loop of \<open>getrandom_3\<close>\<close>





subsection \<open>The claims about the distributions\<close>

lemma below_pi_half:
  assumes "x \<le> 13176794 / 2 ^ 23"
  shows "real_of_rat x < pi / 2"
proof -
  have "real_of_rat x \<le> real_of_rat (13176794 / 2 ^ 23)" using assms by (simp only: of_rat_less_eq)
  also have "\<dots> = 13176794 / 2 ^ 23" by (simp add: of_rat_divide)
  also have "\<dots> < 26353589 / 16777216" by simp
  also have "\<dots> < pi / 2" by (rule pi_half_lower)
  finally show ?thesis .
qed

lemma getrandom_2_below:
  "flt_val (fst (getrandom_2 state)) \<le> 13176794 / 2 ^ 23"
proof -
  have "uniform_draw state \<le> 13176794" using getrandom_2_value(1)[of state] by (simp add: uniform_draw_def)
  then have "(of_nat (uniform_draw state) :: rat) \<le> of_nat 13176794" by (simp only: of_nat_le_iff)
  then have "(of_nat (uniform_draw state) :: rat) / 2 ^ 23 \<le> of_nat 13176794 / 2 ^ 23"
    by (intro divide_right_mono) simp_all
  then show ?thesis using getrandom_2_value(3)[of state] by (simp add: uniform_draw_def)
qed



text \<open>
  Claim C6. The integer \<open>getrandom_2\<close> draws lies below the constant 13176795, which is
  \<open>2\<^sup>2\<^sup>3 \<pi>/2\<close> rounded to the nearest integer; its conversion to \<open>float\<close> and the division
  by \<open>2\<^sup>2\<^sup>3\<close> are exact, so the float returned denotes exactly the integer over
  \<open>2\<^sup>2\<^sup>3\<close>, a multiple of \<open>2\<^sup>-\<^sup>2\<^sup>3\<close> in \<open>[0, \<pi>/2)\<close>. (That the draw is uniformly distributed
  is GMP's contract and is not a property of this program.)
\<close>

theorem uniform_small_exact:
  "unat gt_pid2_ls23_int = 13176795
   \<and> round (2 ^ 23 * pi / 2) = (13176795 :: int)
   \<and> uniform_draw state < 13176795
   \<and> flt_val (flt_of_ulong (uniform_draw state)) = of_nat (uniform_draw state)
   \<and> flt_val (flt_of_ulong (push_bit 23 1)) = 2 ^ 23
   \<and> fst (getrandom_2 state) = flt_div (flt_of_ulong (uniform_draw state)) (flt_of_ulong (push_bit 23 1))
   \<and> flt_val (fst (getrandom_2 state)) = of_nat (uniform_draw state) / 2 ^ 23
   \<and> 0 \<le> flt_val (fst (getrandom_2 state))
   \<and> real_of_rat (flt_val (fst (getrandom_2 state))) < pi / 2"
proof -
  have i: "uniform_draw state < 2 ^ 24" using getrandom_2_value(1)[of state] by (simp add: uniform_draw_def)
  have d: "(2 ^ 23 :: nat) < 2 ^ 24" by simp
  have p: "push_bit 23 (1 :: nat) = 2 ^ 23" by (simp add: push_bit_eq_mult)
  have v: "flt_val (fst (getrandom_2 state)) = of_nat (uniform_draw state) / 2 ^ 23"
    using getrandom_2_value(3)[of state] by (simp add: uniform_draw_def)
  show ?thesis
    unfolding p
    using getrandom_2_value(1,2)[of state] flt_of_ulong_exact(1)[OF i] flt_of_ulong_exact(1)[OF d]
      v below_pi_half[OF getrandom_2_below[of state]] round_pi
    by (simp add: uniform_draw_def gt_pid2_ls23_int_def)
qed

section \<open>Facts about the comparison loop\<close>



























lemma replicate_counts:
  "map (map (\<lambda>c. c + k)) (replicate 3 (replicate 4 (0 :: 64 word))) = replicate 3 (replicate 4 k)"
  by simp








section \<open>\<open>m2\<close> along a run\<close>

subsection \<open>Rounding as a monotone map on values\<close>

lemma round_not_nan: "mpfr_round p v \<noteq> MNaN"
  by (simp add: mpfr_round_def Let_def)

lemma num_le: "mpfr_number_p a \<Longrightarrow> mpfr_number_p b \<Longrightarrow> mpfr_lessequal_p a b \<longleftrightarrow> mpfr_val a \<le> mpfr_val b"
  by (cases a; cases b)
     (simp_all add: mpfr_number_p_def mpfr_lessequal_p_def mpfr_nan_p_def mpfr_inf_p_def)

lemma round_val_mono:
  assumes "v \<le> w" "0 < p" "mpfr_number_p (mpfr_round p v)" "mpfr_number_p (mpfr_round p w)"
  shows "mpfr_val (mpfr_round p v) \<le> mpfr_val (mpfr_round p w)"
  using mpfr_round_mono[OF assms(1,2)] num_le[OF assms(3,4)] by simp

lemma round_between:
  assumes "u \<le> v" "v \<le> w" "0 < p" "mpfr_number_p (mpfr_round p u)" "mpfr_number_p (mpfr_round p w)"
  shows "mpfr_number_p (mpfr_round p v)"
proof -
  have a: "mpfr_lessequal_p (mpfr_round p u) (mpfr_round p v)" using mpfr_round_mono[OF assms(1,3)] .
  have b: "mpfr_lessequal_p (mpfr_round p v) (mpfr_round p w)" using mpfr_round_mono[OF assms(2,3)] .
  show ?thesis
  proof (cases "mpfr_round p v")
    case MNaN
    then show ?thesis using round_not_nan by blast
  next
    case (MInf s)
    show ?thesis
    proof (cases s)
      case True
      then show ?thesis using a assms(4) MInf
        by (cases "mpfr_round p u")
           (simp_all add: mpfr_lessequal_p_def mpfr_nan_p_def mpfr_inf_p_def mpfr_signbit_def mpfr_number_p_def)
    next
      case False
      then show ?thesis using b assms(5) MInf
        by (cases "mpfr_round p w")
           (simp_all add: mpfr_lessequal_p_def mpfr_nan_p_def mpfr_inf_p_def mpfr_signbit_def mpfr_number_p_def)
    qed
  qed (simp_all add: mpfr_number_p_def)
qed

lemma round_held:
  assumes "v = 0 \<or> mpfr_regular p v"
  shows "mpfr_number_p (mpfr_round p v)" and "mpfr_val (mpfr_round p v) = v"
  using assms by (auto simp: mpfr_round_zero mpfr_round_exact mpfr_number_p_def mpfr_val_def)

lemma val_held:
  assumes "mpfr_wf p a"
  shows "mpfr_val a = 0 \<or> mpfr_regular p (mpfr_val a)"
  using assms by (cases a) (simp_all add: mpfr_wf_def mpfr_val_def)

lemma round_result_held:
  assumes "0 < p"
  shows "mpfr_val (mpfr_round p v) = 0 \<or> mpfr_regular p (mpfr_val (mpfr_round p v))"
  using val_held[OF wf_round[OF assms, of v]] .

lemma min_regular: "0 < p \<Longrightarrow> mpfr_regular p (2 powi (mpfr_emin - 1))"
  using emin_le_emax by (simp add: mpfr_regular_def fits_two_powi expo_two_powi)

lemma round_le_double:
  assumes "0 < v" "0 < p" "mpfr_round p v = MFin r"
  shows "r \<le> 2 * v"
  using assms(1,2)
proof (cases rule: mpfr_round_pos_cases[of v p])
  case tiny
  have "(2::rat) powi (mpfr_emin - 1) = 2 * 2 powi (mpfr_emin - 2)"
    using power_int_add[of "2::rat" 1 "mpfr_emin - 2"] by simp
  then show ?thesis using tiny assms(3) by simp
next
  case normal
  have "rnd p v \<le> 2 powi (expo v + 1)" using rnd_bounds_pos(2)[OF assms(1,2)] .
  also have "\<dots> = 2 * 2 powi expo v" using power_int_add[of "2::rat" 1 "expo v"] by (simp add: add.commute)
  also have "\<dots> \<le> 2 * v" using expo_bounds(1)[of v] assms(1) by simp
  finally show ?thesis using normal assms(3) by simp
qed (use assms(3) in simp_all)

lemma round_tiny_zero:
  assumes "0 < y" "y \<le> 2 powi (mpfr_emin - 2)" "0 < p"
  shows "mpfr_round p y = MZero False"
proof -
  have "rnd p y \<le> rnd p (2 powi (mpfr_emin - 2))" using rnd_mono[OF assms(2,3)] .
  also have "\<dots> = 2 powi (mpfr_emin - 2)" using fits_two_powi[OF assms(3)] by (rule rnd_exact)
  finally have r: "rnd p y \<le> 2 powi (mpfr_emin - 2)" .
  have rp: "0 < rnd p y" using rnd_pos[OF assms(1,3)] .
  have "expo (rnd p y) \<le> expo (2 powi (mpfr_emin - 2) :: rat)"
    using r rp by (intro expo_mono) auto
  then have e: "expo (rnd p y) \<le> mpfr_emin - 2" by (simp add: expo_two_powi)
  from assms(1,3) show ?thesis
  proof (cases rule: mpfr_round_pos_cases[of y p])
    case over
    then show ?thesis using e emin_le_emax by linarith
  next
    case tiny
    then show ?thesis using assms(2) by linarith
  next
    case normal
    then show ?thesis using e by linarith
  qed
qed

lemma round_minus_val: "mpfr_val (mpfr_round p (- v)) = - mpfr_val (mpfr_round p v)"
proof (cases "v = 0")
  case True then show ?thesis by (simp add: mpfr_round_zero mpfr_val_def)
next
  case False
  show ?thesis unfolding mpfr_round_minus[OF False]
    by (cases "mpfr_round p v") (simp_all add: mpfr_negate_def mpfr_val_def)
qed

lemma round_minus_num: "mpfr_number_p (mpfr_round p (- v)) = mpfr_number_p (mpfr_round p v)"
proof (cases "v = 0")
  case True then show ?thesis by simp
next
  case False
  show ?thesis unfolding mpfr_round_minus[OF False] by (simp add: nonnum_negate)
qed

subsection \<open>One step of Welford's update on values\<close>

lemma half_not_regular:
  assumes "mpfr_regular p d" "\<not> mpfr_regular p (d / 2)"
  shows "expo d = mpfr_emin - 1"
proof -
  have d0: "d \<noteq> 0" using assms(1) by (simp add: mpfr_regular_def)
  have e: "d / 2 = d * 2 powi (- 1)" by (simp add: power_int_minus)
  have f: "mpfr_fits p (d / 2)" unfolding e using assms(1) d0 by (intro fits_scale) (simp_all add: mpfr_regular_def)
  have x: "expo (d / 2) = expo d - 1" unfolding e using expo_times_two_powi[OF d0, of "- 1"] by simp
  show ?thesis using assms f x d0 by (simp add: mpfr_regular_def)
qed

lemma welford_core_pos:
  fixes xv mv :: rat and N :: nat
  assumes p: "0 < p"
    and hx: "xv = 0 \<or> mpfr_regular p xv" and hm: "mv = 0 \<or> mpfr_regular p mv"
    and le: "mv \<le> xv"
    and dn: "mpfr_number_p (mpfr_round p (xv - mv))"
    and N: "1 \<le> N" "N = 1 \<Longrightarrow> mv = 0"
  defines "dv \<equiv> mpfr_val (mpfr_round p (xv - mv))"
  defines "tv \<equiv> mpfr_val (mpfr_round p (dv / of_nat N))"
  defines "m' \<equiv> mpfr_val (mpfr_round p (mv + tv))"
  shows "mpfr_number_p (mpfr_round p (dv / of_nat N))"
    and "mpfr_number_p (mpfr_round p (mv + tv))"
    and "mpfr_number_p (mpfr_round p (xv - m'))"
    and "0 \<le> dv" and "0 \<le> mpfr_val (mpfr_round p (xv - m'))"
proof -
  let ?R = "mpfr_round p"
  let ?min = "2 powi (mpfr_emin - 1) :: rat"
  have z: "mpfr_number_p (?R 0)" "mpfr_val (?R 0) = 0"
    by (simp_all add: mpfr_round_zero mpfr_number_p_def mpfr_val_def)
  have v0: "0 \<le> xv - mv" using le by simp
  show dv0: "0 \<le> dv" unfolding dv_def using round_val_mono[OF v0 p z(1) dn] z(2) by simp
  have dheld: "dv = 0 \<or> mpfr_regular p dv" unfolding dv_def by (rule round_result_held[OF p])
  note rd = round_held[OF dheld]
  have Npos: "(0::rat) < of_nat N" using N(1) by simp
  have q0: "0 \<le> dv / of_nat N" using dv0 by simp
  have q1: "dv / of_nat N \<le> dv"
  proof -
    have "dv \<le> dv * of_nat N" using dv0 N(1) by (simp add: mult_le_cancel_left1)
    then show ?thesis using Npos by (simp add: pos_divide_le_eq)
  qed
  show tn: "mpfr_number_p (?R (dv / of_nat N))"
    using round_between[OF q0 q1 p z(1) rd(1)] .
  have t0: "0 \<le> tv" unfolding tv_def using round_val_mono[OF q0 p z(1) tn] z(2) by simp
  have T: "tv \<le> xv - mv"
  proof (cases "N = 1")
    case True
    then have mv0: "mv = 0" using N(2) by simp
    have "dv = xv" unfolding dv_def mv0 using round_held(2)[OF hx] by simp
    moreover have "tv = dv" unfolding tv_def using True rd(2) by simp
    ultimately show ?thesis using mv0 by simp
  next
    case False
    then have N2: "(2::rat) \<le> of_nat N" using N(1) by (metis Suc_1 Suc_leI le_neq_implies_less numeral_le_real_of_nat_iff of_nat_le_iff of_nat_numeral)
    show ?thesis
    proof (cases "dv = 0")
      case True
      then show ?thesis unfolding tv_def using z(2) v0 by simp
    next
      case dnz: False
      then have dreg: "mpfr_regular p dv" and dpos: "0 < dv" using dheld dv0 by auto
      have vpos: "0 < xv - mv"
      proof (rule ccontr)
        assume "\<not> 0 < xv - mv"
        then have "xv - mv = 0" using v0 by simp
        then show False using dnz z(2) by (simp add: dv_def)
      qed
      have "?R (xv - mv) = MFin dv"
        using dn dnz unfolding dv_def
        by (cases "?R (xv - mv)") (simp_all add: mpfr_number_p_def mpfr_val_def)
      then have D2: "dv \<le> 2 * (xv - mv)" using round_le_double[OF vpos p] by simp
      have h: "dv / of_nat N \<le> dv / 2"
        using N2 dpos by (intro divide_left_mono) simp_all
      have hpos: "0 \<le> dv / 2" "dv / 2 \<le> dv" using dpos by simp_all
      have hn: "mpfr_number_p (?R (dv / 2))" using round_between[OF hpos p z(1) rd(1)] .
      have th: "tv \<le> mpfr_val (?R (dv / 2))"
        unfolding tv_def using round_val_mono[OF h p tn hn] .
      show ?thesis
      proof (cases "mpfr_regular p (dv / 2)")
        case True
        then have "mpfr_val (?R (dv / 2)) = dv / 2" using round_held(2)[of "dv / 2" p] by simp
        then show ?thesis using th D2 by simp
      next
        case nr: False
        have ed: "expo dv = mpfr_emin - 1" using half_not_regular[OF dreg nr] .
        have dmin: "?min \<le> dv" using expo_bounds(1)[of dv] dpos ed by simp
        have dlt: "dv < 2 * ?min"
        proof -
          have "dv < 2 powi (expo dv + 1)" using expo_bounds(2)[of dv] dpos by simp
          also have "\<dots> = 2 * ?min" unfolding ed using power_int_add[of "2::rat" 1 "mpfr_emin - 1"] by simp
          finally show ?thesis .
        qed
        note rm = round_held[OF disjI2[OF min_regular[OF p]]]
        show ?thesis
        proof (cases "?min \<le> xv - mv")
          case True
          have "dv / 2 \<le> ?min" using dlt by simp
          then have "mpfr_val (?R (dv / 2)) \<le> ?min"
            using round_val_mono[OF _ p hn rm(1)] rm(2) by simp
          then show ?thesis using th True by simp
        next
          case False
          then have "xv - mv \<le> ?min" by simp
          then have "dv \<le> ?min" unfolding dv_def using round_val_mono[OF _ p dn rm(1)] rm(2) by simp
          then have deq: "dv = ?min" using dmin by simp
          have m2: "?min = 2 * 2 powi (mpfr_emin - 2)"
            using power_int_add[of "2::rat" 1 "mpfr_emin - 2"] by simp
          have "dv / of_nat N \<le> 2 powi (mpfr_emin - 2)" using h deq m2 by simp
          moreover have "0 < dv / of_nat N" using dpos Npos by simp
          ultimately have "?R (dv / of_nat N) = MZero False" using round_tiny_zero p by simp
          then have "tv = 0" by (simp add: tv_def mpfr_val_def)
          then show ?thesis using v0 by simp
        qed
      qed
    qed
  qed
  note rx = round_held[OF hx] and rmv = round_held[OF hm]
  have b1: "mv \<le> mv + tv" using t0 by simp
  have b2: "mv + tv \<le> xv" using T by simp
  show mn: "mpfr_number_p (?R (mv + tv))" using round_between[OF b1 b2 p rmv(1) rx(1)] .
  have "m' \<le> xv" unfolding m'_def using round_val_mono[OF b2 p mn rx(1)] rx(2) by simp
  moreover have "mv \<le> m'" unfolding m'_def using round_val_mono[OF b1 p rmv(1) mn] rmv(2) by simp
  ultimately have c: "0 \<le> xv - m'" "xv - m' \<le> xv - mv" by simp_all
  show t2n: "mpfr_number_p (?R (xv - m'))" using round_between[OF c p z(1) dn] .
  show "0 \<le> mpfr_val (?R (xv - m'))" using round_val_mono[OF c(1) p z(1) t2n] z(2) by simp
qed

lemma welford_core:
  fixes xv mv :: rat and N :: nat
  assumes p: "0 < p"
    and hx: "xv = 0 \<or> mpfr_regular p xv" and hm: "mv = 0 \<or> mpfr_regular p mv"
    and dn: "mpfr_number_p (mpfr_round p (xv - mv))"
    and N: "1 \<le> N" "N = 1 \<Longrightarrow> mv = 0"
  defines "dv \<equiv> mpfr_val (mpfr_round p (xv - mv))"
  defines "tv \<equiv> mpfr_val (mpfr_round p (dv / of_nat N))"
  defines "m' \<equiv> mpfr_val (mpfr_round p (mv + tv))"
  shows "mpfr_number_p (mpfr_round p (dv / of_nat N))"
    and "mpfr_number_p (mpfr_round p (mv + tv))"
    and "mpfr_number_p (mpfr_round p (xv - m'))"
    and "0 \<le> dv * mpfr_val (mpfr_round p (xv - m'))"
proof -
  let ?R = "mpfr_round p"
  have all: "mpfr_number_p (?R (dv / of_nat N)) \<and> mpfr_number_p (?R (mv + tv))
     \<and> mpfr_number_p (?R (xv - m')) \<and> 0 \<le> dv * mpfr_val (?R (xv - m'))"
  proof (cases "mv \<le> xv")
    case True
    note c = welford_core_pos[OF p hx hm True dn N, folded dv_def, folded tv_def, folded m'_def]
    show ?thesis using c by simp
  next
    case False
    then have le: "- mv \<le> - xv" by simp
    have hx': "- xv = 0 \<or> mpfr_regular p (- xv)" using hx by (simp add: regular_minus)
    have hm': "- mv = 0 \<or> mpfr_regular p (- mv)" using hm by (simp add: regular_minus)
    have e1: "- xv - - mv = - (xv - mv)" by simp
    have dn': "mpfr_number_p (?R (- xv - - mv))" unfolding e1 round_minus_num using dn .
    have N': "N = 1 \<Longrightarrow> - mv = 0" using N(2) by simp
    have d': "mpfr_val (?R (- xv - - mv)) = - dv" unfolding e1 round_minus_val dv_def by simp
    have e2: "- dv / of_nat N = - (dv / of_nat N)" by simp
    have t': "mpfr_val (?R (- dv / of_nat N)) = - tv" unfolding e2 round_minus_val tv_def by simp
    have e3: "- mv + - tv = - (mv + tv)" by simp
    have m'': "mpfr_val (?R (- mv + - tv)) = - m'" unfolding e3 round_minus_val m'_def by simp
    have e4: "- xv - - m' = - (xv - m')" by simp
    note c = welford_core_pos[OF p hx' hm' le dn' N(1) N', unfolded d' t' m'']
    have "mpfr_number_p (?R (dv / of_nat N))" using c(1) unfolding e2 round_minus_num .
    moreover have "mpfr_number_p (?R (mv + tv))" using c(2) unfolding e3 round_minus_num .
    moreover have "mpfr_number_p (?R (xv - m'))" using c(3) unfolding e4 round_minus_num .
    moreover have "0 \<le> - dv" using c(4) .
    moreover have "0 \<le> - mpfr_val (?R (xv - m'))" using c(5) unfolding e4 round_minus_val .
    ultimately show ?thesis by (simp add: mult_nonpos_nonpos)
  qed
  then show "mpfr_number_p (mpfr_round p (dv / of_nat N))"
    and "mpfr_number_p (mpfr_round p (mv + tv))"
    and "mpfr_number_p (mpfr_round p (xv - m'))"
    and "0 \<le> dv * mpfr_val (mpfr_round p (xv - m'))" by simp_all
qed

lemma same_val: "mpfr_same a b \<Longrightarrow> mpfr_val a = mpfr_val b"
  by (cases a; cases b) (auto simp: mpfr_same_def mpfr_zero_p_def mpfr_val_def)

lemma same_num: "mpfr_same a b \<Longrightarrow> mpfr_number_p a = mpfr_number_p b"
  by (cases a; cases b) (auto simp: mpfr_same_def mpfr_zero_p_def mpfr_number_p_def)

lemma same_le:
  "mpfr_same a a' \<Longrightarrow> mpfr_same b b' \<Longrightarrow> mpfr_lessequal_p a' b' \<Longrightarrow> mpfr_lessequal_p a b"
  by (cases a; cases b; cases a'; cases b')
     (auto simp: mpfr_same_def mpfr_zero_p_def mpfr_lessequal_p_def mpfr_nan_p_def mpfr_inf_p_def
        mpfr_val_def mpfr_signbit_def)

lemma add_same:
  "mpfr_number_p a \<Longrightarrow> mpfr_number_p b \<Longrightarrow>
   mpfr_same (mpfr_add p a b) (mpfr_round p (mpfr_val a + mpfr_val b))"
  by (cases a; cases b)
     (simp_all add: mpfr_add_def mpfr_number_p_def mpfr_nan_p_def mpfr_inf_p_def mpfr_zero_p_def
        mpfr_val_def mpfr_same_def mpfr_round_zero)

lemma sub_same:
  "mpfr_number_p a \<Longrightarrow> mpfr_number_p b \<Longrightarrow>
   mpfr_same (mpfr_sub p a b) (mpfr_round p (mpfr_val a - mpfr_val b))"
  by (cases a; cases b)
     (simp_all add: mpfr_sub_def mpfr_negate_def mpfr_add_def mpfr_number_p_def mpfr_nan_p_def
        mpfr_inf_p_def mpfr_zero_p_def mpfr_val_def mpfr_same_def mpfr_round_zero)

lemma div_ui_same:
  "mpfr_number_p a \<Longrightarrow> u \<noteq> 0 \<Longrightarrow>
   mpfr_same (mpfr_div_ui p a u) (mpfr_round p (mpfr_val a / of_nat (unat u)))"
  by (cases a)
     (simp_all add: mpfr_div_ui_def mpfr_number_p_def mpfr_zero_p_def
        mpfr_val_def mpfr_same_def mpfr_round_zero)

lemma fma_same:
  "mpfr_number_p x \<Longrightarrow> mpfr_number_p y \<Longrightarrow> mpfr_number_p z \<Longrightarrow>
   mpfr_same (mpfr_fma p x y z) (mpfr_round p (mpfr_val x * mpfr_val y + mpfr_val z))"
  by (cases x; cases y; cases z)
     (simp_all add: mpfr_fma_def mpfr_number_p_def mpfr_nan_p_def mpfr_inf_p_def mpfr_zero_p_def
        mpfr_val_def mpfr_same_def mpfr_round_zero Let_def)

lemma fma_inf:
  "mpfr_number_p x \<Longrightarrow> mpfr_number_p y \<Longrightarrow> mpfr_fma p x y (MInf s) = MInf s"
  by (cases x; cases y)
     (simp_all add: mpfr_fma_def mpfr_number_p_def mpfr_nan_p_def mpfr_inf_p_def mpfr_zero_p_def Let_def)

lemma held_same:
  "mpfr_number_p a \<Longrightarrow> mpfr_wf p a \<Longrightarrow> mpfr_same a (mpfr_round p (mpfr_val a))"
  by (cases a)
     (simp_all add: mpfr_number_p_def mpfr_wf_def mpfr_val_def mpfr_same_def mpfr_zero_p_def
        mpfr_round_zero mpfr_round_exact)

subsection \<open>The step on a cell, and runs\<close>

lemma welford_step:
  assumes inv: "cell_inv st k" and k: "k + 1 < 2 ^ 64"
    and xn: "mpfr_number_p x" and xw: "mpfr_wf MPFR_PREC x"
    and dn: "mpfr_number_p (spec_delta st x)"
  shows "cell_inv (welford st x) (k + 1)"
    and "mpfr_lessequal_p (m2 st) (m2 (welford st x))"
proof -
  let ?P = MPFR_PREC
  let ?R = "mpfr_round ?P"
  note p = prec_pos
  define xv where "xv = mpfr_val x"
  define mv where "mv = mpfr_val (mean st)"
  have un: "unat (n st) = k" and mn: "mpfr_number_p (mean st)" and mw: "mpfr_wf ?P (mean st)"
    and m0: "k = 0 \<Longrightarrow> mv = 0" and zw: "mpfr_wf ?P (m2 st)"
    and z0: "mpfr_lessequal_p (MZero False) (m2 st)"
    using inv by (simp_all add: cell_inv_def mv_def split: if_splits)
  have hx: "xv = 0 \<or> mpfr_regular ?P xv" unfolding xv_def using val_held[OF xw] .
  have hm: "mv = 0 \<or> mpfr_regular ?P mv" unfolding mv_def using val_held[OF mw] .
  have un': "unat (n st + 1) = k + 1" using un k by (simp add: unat_word_ariths)
  then have nz: "n st + 1 \<noteq> 0" by (metis Suc_eq_plus1 nat.simps(3) unat_0)
  define dv where "dv = mpfr_val (?R (xv - mv))"
  define tv where "tv = mpfr_val (?R (dv / of_nat (k + 1)))"
  define m' where "m' = mpfr_val (?R (mv + tv))"
  define t2v where "t2v = mpfr_val (?R (xv - m'))"
  have ds: "mpfr_same (spec_delta st x) (?R (xv - mv))"
    unfolding spec_delta_def xv_def mv_def using sub_same[OF xn mn] .
  have dvd: "mpfr_val (spec_delta st x) = dv" unfolding dv_def using same_val[OF ds] .
  have dn': "mpfr_number_p (?R (xv - mv))" using same_num[OF ds] dn by simp
  have N: "1 \<le> k + 1" "k + 1 = 1 \<Longrightarrow> mv = 0" using m0 by simp_all
  note c = welford_core[OF p hx hm dn' N, folded dv_def, folded tv_def, folded m'_def, folded t2v_def]
  let ?t = "mpfr_div_ui ?P (spec_delta st x) (n st + 1)"
  have ts: "mpfr_same ?t (?R (dv / of_nat (k + 1)))"
    using div_ui_same[OF dn nz, of ?P] unfolding dvd un' .
  have tn: "mpfr_number_p ?t" using same_num[OF ts] c(1) by simp
  have tvd: "mpfr_val ?t = tv" unfolding tv_def using same_val[OF ts] .
  have ms: "mpfr_same (spec_mean st x) (?R (mv + tv))"
    unfolding spec_mean_def using add_same[OF mn tn, of ?P] unfolding tvd mv_def .
  have mn': "mpfr_number_p (spec_mean st x)" using same_num[OF ms] c(2) by simp
  have mvd: "mpfr_val (spec_mean st x) = m'" unfolding m'_def using same_val[OF ms] .
  let ?t2 = "mpfr_sub ?P x (spec_mean st x)"
  have t2s: "mpfr_same ?t2 (?R (xv - m'))"
    using sub_same[OF xn mn', of ?P] unfolding mvd xv_def .
  have t2n: "mpfr_number_p ?t2" using same_num[OF t2s] c(3) by simp
  have t2vd: "mpfr_val ?t2 = t2v" unfolding t2v_def using same_val[OF t2s] .
  have prod: "0 \<le> dv * t2v" using c(4) .
  have m2e: "m2 (welford st x) = mpfr_fma ?P (spec_delta st x) ?t2 (m2 st)"
    by (simp add: welford_def spec_m2_def)
  have zle: "mpfr_lessequal_p (m2 st) (m2 (welford st x))"
  proof (cases "mpfr_number_p (m2 st)")
    case True
    define zv where "zv = mpfr_val (m2 st)"
    have fs: "mpfr_same (m2 (welford st x)) (?R (dv * t2v + zv))"
      unfolding m2e zv_def using fma_same[OF dn t2n True, of ?P] unfolding dvd t2vd .
    have zs: "mpfr_same (m2 st) (?R zv)" unfolding zv_def using held_same[OF True zw] .
    have "zv \<le> dv * t2v + zv" using prod by simp
    from mpfr_round_mono[OF this p] show ?thesis using same_le[OF zs fs] by simp
  next
    case False
    then have "m2 st = MInf False" using z0
      by (cases "m2 st")
         (simp_all add: mpfr_number_p_def mpfr_lessequal_p_def mpfr_nan_p_def mpfr_inf_p_def mpfr_signbit_def)
    then show ?thesis unfolding m2e using fma_inf[OF dn t2n, of ?P False] by (simp add: le_pinf)
  qed
  show "mpfr_lessequal_p (m2 st) (m2 (welford st x))" using zle .
  have "mpfr_wf ?P (mean (welford st x))" by (simp add: welford_def spec_mean_def wf_add[OF p])
  moreover have "mpfr_wf ?P (m2 (welford st x))" unfolding m2e by (rule wf_fma[OF p])
  moreover have "mpfr_lessequal_p (MZero False) (m2 (welford st x))" using le_trans_mpfr[OF z0 zle] .
  moreover have "unat (n (welford st x)) = k + 1" using un' by (simp add: welford_def)
  moreover have "mpfr_number_p (mean (welford st x))" using mn' by (simp add: welford_def)
  ultimately show "cell_inv (welford st x) (k + 1)" by (simp add: cell_inv_def)
qed

lemma cell_inv_init: "cell_inv (stats_init d g) 0"
  by (simp add: cell_inv_def stats_init_fields mpfr_number_p_def mpfr_wf_def mpfr_val_def le_zero_zero)

lemma run_inv:
  assumes "cell_inv st k" "k + length calls < 2 ^ 64" "finite_run st calls"
  shows "m2_nondecreasing st calls \<and> cell_inv (stats_add_all st calls) (k + length calls)"
  using assms
proof (induction calls arbitrary: st k)
  case Nil
  then show ?case by (simp add: stats_add_all_def)
next
  case (Cons c calls)
  obtain y r where c: "c = (y, r)" by (cases c)
  have fr: "mpfr_number_p (spec_reldiff y r)" "mpfr_number_p (spec_delta st (spec_reldiff y r))"
    "finite_run (stats_add st y r) calls"
    using Cons.prems(3) by (simp_all add: c)
  have k1: "k + 1 < 2 ^ 64" using Cons.prems(2) by simp
  note s = welford_step[OF Cons.prems(1) k1 fr(1) wf_reldiff fr(2), folded stats_add_welford]
  have k2: "(k + 1) + length calls < 2 ^ 64" using Cons.prems(2) by simp
  from Cons.IH[OF s(1) k2 fr(3)] have
    "m2_nondecreasing (stats_add st y r) calls"
    "cell_inv (stats_add_all (stats_add st y r) calls) (k + 1 + length calls)" by simp_all
  then show ?case using s(2) by (simp add: c stats_add_all_def)
qed

lemma m2_run:
  assumes "length calls < 2 ^ 64" "finite_run (stats_init d g) calls"
  shows "m2_nondecreasing (stats_init d g) calls"
    and "mpfr_lessequal_p (MZero False) (m2 (stats_add_all (stats_init d g) calls))"
  using run_inv[OF cell_inv_init, of calls d g] assms by (simp_all add: cell_inv_def)

subsection \<open>A run whose \<open>delta\<close> overflows\<close>

lemma rnd_absorb:
  assumes "mpfr_fits p x" "expo (x + d) = expo x" "\<bar>d\<bar> < ulp p x / 2"
  shows "rnd p (x + d) = x"
proof -
  have u: "ulp p (x + d) = ulp p x" using assms(2) by (simp add: ulp_def)
  have up: "0 < ulp p x" by (rule ulp_pos)
  define K where "K = \<lfloor>x / ulp p x\<rfloor>"
  have q: "x / ulp p x = of_int K" using assms(1) unfolding mpfr_fits_def K_def by (rule sym)
  have "\<bar>d / ulp p x\<bar> < 1 / 2" using assms(3) up by (simp add: abs_divide pos_divide_less_eq)
  moreover have "(x + d) / ulp p x - of_int K = d / ulp p x" using q by (simp add: add_divide_distrib)
  ultimately have "round_even ((x + d) / ulp p x) = K" by (intro round_even_near) simp
  then have "rnd p (x + d) = of_int K * ulp p x" by (simp add: rnd_def u)
  also have "\<dots> = x" using q up by (simp add: field_simps)
  finally show ?thesis .
qed

lemma emax_facts: "2 \<le> mpfr_emax - 2" "0 < mpfr_emax - 513" "mpfr_emin \<le> mpfr_emax" "0 \<le> mpfr_emax - 2"
  by (simp_all add: mpfr_emax_def mpfr_emin_def)

lemma big_regular: "mpfr_regular MPFR_PREC (3 * 2 powi (mpfr_emax - 2))"
proof -
  have f3: "mpfr_fits MPFR_PREC (of_int 3)" by (rule fits_of_int) (simp_all add: MPFR_PREC_def)
  have e3: "expo (3 :: rat) = 1" by (rule expo_unique) simp_all
  have "mpfr_fits MPFR_PREC (of_int 3 * 2 powi (mpfr_emax - 2))" using f3 by (rule fits_scale) simp
  moreover have "expo (3 * 2 powi (mpfr_emax - 2) :: rat) = 1 + (mpfr_emax - 2)"
    using expo_times_two_powi[of "3::rat" "mpfr_emax - 2"] e3 by simp
  ultimately show ?thesis using emax_facts by (simp add: mpfr_regular_def)
qed

lemma big_expo: "expo (3 * 2 powi (mpfr_emax - 2) :: rat) = mpfr_emax - 1"
proof -
  have e3: "expo (3 :: rat) = 1" by (rule expo_unique) simp_all
  show ?thesis using expo_times_two_powi[of "3::rat" "mpfr_emax - 2"] e3 by simp
qed

lemma one_le_big: "(1::rat) \<le> 2 powi (mpfr_emax - 2)"
  using two_powi_le_iff[of 0 "mpfr_emax - 2"] emax_facts by simp

lemma big_pm_expo:
  "expo (3 * 2 powi (mpfr_emax - 2) + 1 :: rat) = mpfr_emax - 1"
  "expo (3 * 2 powi (mpfr_emax - 2) - 1 :: rat) = mpfr_emax - 1"
proof -
  let ?h = "2 powi (mpfr_emax - 2) :: rat"
  have h1: "1 \<le> ?h" by (rule one_le_big)
  have a: "(2::rat) powi (mpfr_emax - 1) = 2 * ?h"
    using power_int_add[of "2::rat" 1 "mpfr_emax - 2"] by simp
  have b: "(2::rat) powi (mpfr_emax - 1 + 1) = 4 * ?h"
    using power_int_add[of "2::rat" 2 "mpfr_emax - 2"] by simp
  have h2: "1 < ?h"
    using two_powi_less_iff[of 0 "mpfr_emax - 2"] emax_facts by simp
  have p1: "\<bar>3 * ?h + 1\<bar> = 3 * ?h + 1" using h1 by simp
  have p2: "\<bar>3 * ?h - 1\<bar> = 3 * ?h - 1" using h1 by simp
  show "expo (3 * ?h + 1) = mpfr_emax - 1"
  proof (rule expo_unique)
    show "2 powi (mpfr_emax - 1) \<le> \<bar>3 * ?h + 1\<bar>" unfolding p1 a using h1 by linarith
    show "\<bar>3 * ?h + 1\<bar> < 2 powi (mpfr_emax - 1 + 1)" unfolding p1 b using h2 by linarith
  qed
  show "expo (3 * ?h - 1) = mpfr_emax - 1"
  proof (rule expo_unique)
    show "2 powi (mpfr_emax - 1) \<le> \<bar>3 * ?h - 1\<bar>" unfolding p2 a using h1 by linarith
    show "\<bar>3 * ?h - 1\<bar> < 2 powi (mpfr_emax - 1 + 1)" unfolding p2 b using h2 by linarith
  qed
qed

lemma big_half_ulp: "(1::rat) < ulp MPFR_PREC (3 * 2 powi (mpfr_emax - 2)) / 2"
proof -
  have "ulp MPFR_PREC (3 * 2 powi (mpfr_emax - 2)) = 2 powi (mpfr_emax - 512)"
    by (simp add: ulp_def big_expo MPFR_PREC_def)
  moreover have "(2::rat) powi (mpfr_emax - 512) = 2 * 2 powi (mpfr_emax - 513)"
    using power_int_add[of "2::rat" 1 "mpfr_emax - 513"] by simp
  moreover have "(1::rat) < 2 powi (mpfr_emax - 513)"
    using two_powi_less_iff[of 0 "mpfr_emax - 513"] emax_facts by simp
  ultimately show ?thesis by simp
qed

lemma big_minus_one: "mpfr_round MPFR_PREC (3 * 2 powi (mpfr_emax - 2) - 1) = MFin (3 * 2 powi (mpfr_emax - 2))"
proof -
  let ?A = "3 * 2 powi (mpfr_emax - 2) :: rat"
  have r: "rnd MPFR_PREC (?A + (- 1)) = ?A"
    using big_regular big_pm_expo(2) big_half_ulp big_expo
    by (intro rnd_absorb) (simp_all add: mpfr_regular_def)
  have nz: "?A - 1 \<noteq> 0" using one_le_big by simp
  show ?thesis using r nz big_regular big_expo
    by (simp add: mpfr_round_def mpfr_regular_def)
qed

lemma big_plus_one: "mpfr_round MPFR_PREC (- (3 * 2 powi (mpfr_emax - 2)) - 1) = MFin (- (3 * 2 powi (mpfr_emax - 2)))"
proof -
  let ?A = "3 * 2 powi (mpfr_emax - 2) :: rat"
  have r: "rnd MPFR_PREC (?A + 1) = ?A"
    using big_regular big_pm_expo(1) big_half_ulp big_expo
    by (intro rnd_absorb) (simp_all add: mpfr_regular_def)
  have nz: "?A + 1 \<noteq> 0" using one_le_big by simp
  have "mpfr_round MPFR_PREC (?A + 1) = MFin ?A" using r nz big_regular big_expo
    by (simp add: mpfr_round_def mpfr_regular_def)
  moreover have "- ?A - 1 = - (?A + 1)" by simp
  ultimately show ?thesis using mpfr_round_minus[OF nz, of MPFR_PREC] by (simp add: mpfr_negate_def)
qed

lemma big_double: "mpfr_round MPFR_PREC (3 * 2 powi (mpfr_emax - 2) + 3 * 2 powi (mpfr_emax - 2)) = MInf False"
proof -
  let ?A = "3 * 2 powi (mpfr_emax - 2) :: rat"
  have A0: "?A \<noteq> 0" by simp
  have e: "?A + ?A = ?A * 2 powi 1" by simp
  have "mpfr_fits MPFR_PREC ?A" using big_regular by (simp add: mpfr_regular_def)
  then have f: "mpfr_fits MPFR_PREC (?A + ?A)" unfolding e using A0 by (rule fits_scale)
  have x: "expo (?A + ?A) = mpfr_emax" unfolding e
    using expo_times_two_powi[OF A0, of 1] big_expo by simp
  have pos: "0 < ?A + ?A" by simp
  have r: "rnd MPFR_PREC (?A + ?A) = ?A + ?A" using f by (rule rnd_exact)
  have nn: "\<not> (?A + ?A < 0)" using pos by linarith
  have nz: "?A + ?A \<noteq> 0" using pos by linarith
  show ?thesis unfolding mpfr_round_def Let_def r x using nn nz by simp
qed

lemma reldiff_big_neg:
  "spec_reldiff (MFin (- (3 * 2 powi (mpfr_emax - 2)))) (MFin 1) = MFin (- (3 * 2 powi (mpfr_emax - 2)))"
  using big_regular
  by (simp add: spec_reldiff_def mpfr_sub_def mpfr_add_def mpfr_negate_def mpfr_abs_def mpfr_div_def
      mpfr_nan_p_def mpfr_inf_p_def mpfr_zero_p_def mpfr_val_def mpfr_round_small big_plus_one
      mpfr_round_exact regular_minus)

lemma reldiff_big_pos:
  "spec_reldiff (MFin (3 * 2 powi (mpfr_emax - 2))) (MFin 1) = MFin (3 * 2 powi (mpfr_emax - 2))"
  using big_regular
  by (simp add: spec_reldiff_def mpfr_sub_def mpfr_add_def mpfr_negate_def mpfr_abs_def mpfr_div_def
      mpfr_nan_p_def mpfr_inf_p_def mpfr_zero_p_def mpfr_val_def mpfr_round_small big_minus_one
      mpfr_round_exact)

lemma overflow_run:
  "m2 (stats_add (stats_init d g) (MFin (- (3 * 2 powi (mpfr_emax - 2)))) (MFin 1)) = MZero False"
  "m2 (stats_add (stats_add (stats_init d g) (MFin (- (3 * 2 powi (mpfr_emax - 2)))) (MFin 1))
         (MFin (3 * 2 powi (mpfr_emax - 2))) (MFin 1)) = MInf True"
proof -
  let ?A = "3 * 2 powi (mpfr_emax - 2) :: rat"
  let ?s1 = "stats_add (stats_init d g) (MFin (- ?A)) (MFin 1)"
  have rn: "mpfr_regular MPFR_PREC (- ?A)" using big_regular by (simp only: regular_minus)
  have s1: "?s1 = welford (stats_init d g) (MFin (- ?A))"
    by (simp only: stats_add_welford reldiff_big_neg)
  have f: "mean ?s1 = MFin (- ?A)" "m2 ?s1 = MZero False" "n ?s1 = 1"
    unfolding s1 by (rule welford_first[OF rn]; simp add: stats_init_fields)+
  show "m2 ?s1 = MZero False" by (rule f(2))
  have d: "spec_delta ?s1 (MFin ?A) = MInf False"
    using big_double
    by (simp add: spec_delta_def f mpfr_sub_def mpfr_add_def mpfr_negate_def mpfr_nan_p_def
        mpfr_inf_p_def mpfr_zero_p_def mpfr_val_def)
  have m: "spec_mean ?s1 (MFin ?A) = MInf False"
    by (simp add: spec_mean_def d f mpfr_div_ui_def mpfr_add_def mpfr_nan_p_def mpfr_inf_p_def
        mpfr_signbit_def)
  have t2: "mpfr_sub MPFR_PREC (MFin ?A) (spec_mean ?s1 (MFin ?A)) = MInf True"
    by (simp add: m mpfr_sub_def mpfr_add_def mpfr_negate_def mpfr_nan_p_def mpfr_inf_p_def)
  have "m2 (welford ?s1 (MFin ?A)) = MInf True"
    by (simp add: welford_def spec_m2_def d t2 f mpfr_fma_def mpfr_nan_p_def mpfr_inf_p_def
        mpfr_zero_p_def mpfr_signbit_def)
  then show "m2 (stats_add ?s1 (MFin ?A) (MFin 1)) = MInf True"
    by (simp only: stats_add_welford reldiff_big_pos)
qed

lemma regular_one: "mpfr_regular MPFR_PREC 1"
  using regular_of_int[of 1 MPFR_PREC] prec_le_emax by (simp add: MPFR_PREC_def)

lemma small_run_finite:
  "finite_run (stats_init d g) [(MFin 2, MFin 1), (MZero False, MFin 1)]"
proof -
  let ?s1 = "stats_add (stats_init d g) (MFin 2) (MFin 1)"
  have s1: "?s1 = welford (stats_init d g) (MFin 1)" by (simp only: stats_add_welford reldiff_2_1)
  have f: "mean ?s1 = MFin 1"
    unfolding s1 by (rule welford_first[OF regular_one]; simp add: stats_init_fields)
  have d1: "spec_delta (stats_init d g) (MFin 1) = MFin 1"
    by (simp add: spec_delta_def stats_init_fields mpfr_sub_def mpfr_add_def mpfr_negate_def
        mpfr_nan_p_def mpfr_inf_p_def mpfr_zero_p_def mpfr_val_def mpfr_round_small)
  have d2: "spec_delta ?s1 (MFin (- 1)) = MFin (- 2)"
    by (simp add: spec_delta_def f mpfr_sub_def mpfr_add_def mpfr_negate_def
        mpfr_nan_p_def mpfr_inf_p_def mpfr_zero_p_def mpfr_val_def mpfr_round_small)
  show ?thesis
    by (simp add: reldiff_2_1 reldiff_0_1 d1 d2 mpfr_number_p_def)
qed

text \<open>
  Claim C10, as amended. After \<open>stats_init\<close> and fewer than \<open>2\<^sup>6\<^sup>4\<close> calls of \<open>stats_add\<close>
  in which every computed relative error and every computed \<open>delta = reldiff - mean\<close> is a
  number, each call leaves \<open>m2\<close> at least as large as it was, and \<open>m2\<close> is never below
  zero (it may reach \<open>+Inf\<close> by overflow). The reason is the one the claim gives: rounding
  to nearest is monotone, so the new mean lies between the old mean and the relative
  error, and \<open>delta\<close> and \<open>reldiff - mean\<close> never have opposite signs.
\<close>

theorem m2_never_decreases:
  "length calls < 2 ^ 64 \<Longrightarrow> finite_run (stats_init d g) calls \<Longrightarrow>
   m2_nondecreasing (stats_init d g) calls
   \<and> mpfr_lessequal_p (MZero False) (m2 (stats_add_all (stats_init d g) calls))"
  using m2_run[of calls d g] by simp

theorem m2_never_decreases_witness:
  "length [(MFin 2, MFin 1), (MZero False, MFin 1)] < (2::nat) ^ 64
   \<and> finite_run (stats_init ''all floats'' ''float'') [(MFin 2, MFin 1), (MZero False, MFin 1)]
   \<and> m2_nondecreasing (stats_init ''all floats'' ''float'') [(MFin 2, MFin 1), (MZero False, MFin 1)]
   \<and> mpfr_lessequal_p (MZero False)
        (m2 (stats_add_all (stats_init ''all floats'' ''float'') [(MFin 2, MFin 1), (MZero False, MFin 1)]))"
proof -
  have l: "length [(MFin 2, MFin 1), (MZero False, MFin 1)] < (2::nat) ^ 64" by simp
  note fr = small_run_finite[of "''all floats''" "''float''"]
  show ?thesis using m2_never_decreases[OF l fr] l fr by (intro conjI) simp_all
qed

text \<open>
  The claim as worded (only the relative errors finite) fails when \<open>delta\<close> overflows: the
  relative errors \<open>-A\<close> and \<open>A\<close> with \<open>A = 1.5 * 2^(emax - 1)\<close> are both numbers, but their
  difference \<open>2 A\<close> rounds to \<open>+Inf\<close>; the mean becomes \<open>+Inf\<close>, \<open>reldiff - mean\<close> is
  \<open>-Inf\<close>, and \<open>m2\<close> goes from \<open>+0\<close> to \<open>-Inf\<close>.
\<close>

theorem m2_decreases_counterexample:
  "spec_reldiff (MFin (- (3 * 2 powi (mpfr_emax - 2)))) (MFin 1) = MFin (- (3 * 2 powi (mpfr_emax - 2)))
   \<and> spec_reldiff (MFin (3 * 2 powi (mpfr_emax - 2))) (MFin 1) = MFin (3 * 2 powi (mpfr_emax - 2))
   \<and> m2 (stats_add (stats_init ''all floats'' ''float'') (MFin (- (3 * 2 powi (mpfr_emax - 2)))) (MFin 1))
       = MZero False
   \<and> m2 (stats_add (stats_add (stats_init ''all floats'' ''float'')
               (MFin (- (3 * 2 powi (mpfr_emax - 2)))) (MFin 1))
            (MFin (3 * 2 powi (mpfr_emax - 2))) (MFin 1)) = MInf True
   \<and> \<not> mpfr_lessequal_p (MZero False) (MInf True)"
proof -
  have "\<not> mpfr_lessequal_p (MZero False) (MInf True)"
    by (simp add: mpfr_lessequal_p_def mpfr_nan_p_def mpfr_inf_p_def mpfr_signbit_def)
  then show ?thesis
    using reldiff_big_neg reldiff_big_pos overflow_run[of "''all floats''" "''float''"]
    by (intro conjI) assumption+
qed

end
